theory Spec2Isabelle
  imports Main
begin

section \<open>Data model\<close>

text \<open>
  The job definition of \<^verbatim>\<open>types/config.ts\<close> (interface Schedule). The optional
  \<^verbatim>\<open>outputPath\<close> is an option: \<open>None\<close> is JavaScript's \<^verbatim>\<open>undefined\<close>.
\<close>

record Schedule =
  name :: string
  cron :: string
  enabled :: bool
  prompt :: string
  outputPath :: "string option"

text \<open>
  Thrown values. The classes of \<^verbatim>\<open>types/errors.ts\<close> are the kinds; \<open>RangeError\<close> is
  JavaScript's, and \<open>PlainError\<close> is any other error thrown by a library (an \<^verbatim>\<open>Error\<close>
  that is none of the classes of the repository).
\<close>

datatype error_kind = SchedulerError | MCPError | APIError | RangeError | PlainError

datatype error = Thrown error_kind string

fun kind :: "error \<Rightarrow> error_kind" where
  "kind (Thrown k m) = k"

fun message :: "error \<Rightarrow> string" where
  "message (Thrown k m) = m"

text \<open>
  The logger: every call \<^verbatim>\<open>logger.level(message, meta)\<close> appends one entry.
\<close>

datatype level = LevelError | LevelWarn | LevelInfo | LevelDebug

datatype meta = MStr string | MNum int | MBool bool | MNull | MList "string list"

type_synonym log_entry = "level \<times> string \<times> (string \<times> meta) list"

text \<open>
  The trigger engine (node-cron). \<^verbatim>\<open>cron.schedule(expression, callback, options)\<close> creates
  a trigger; the list \<open>engine\<close> holds every trigger created so far and a trigger's handle is
  its index. The callback \<^verbatim>\<open>() => { void this.executeSchedule(schedule); }\<close> is determined
  by the schedule it closes over, which is what \<open>callback\<close> stores. \<open>running\<close> is set by
  the option \<^verbatim>\<open>scheduled: true\<close> and cleared by \<^verbatim>\<open>task.stop()\<close>.
\<close>

record cron_task =
  expression :: string
  callback :: Schedule
  timezone :: string
  running :: bool

record ScheduledTask =
  schedule :: Schedule
  task :: nat

text \<open>
  Calls made to the collaborators (tool connection, prompt executor, file system), in the
  order in which they are made.
\<close>

datatype call =
    IsReady
  | Connect
  | ExecutePrompt string
  | Mkdir string
  | WriteFile string string

text \<open>
  The state of a Scheduler object together with what it acts on: \<open>tasks\<close> is the field
  \<^verbatim>\<open>tasks: Map<string, ScheduledTask>\<close> (a JavaScript Map iterates in insertion order, so
  it is an association list), \<open>TZ\<close> is \<^verbatim>\<open>process.env.TZ\<close>.
\<close>

record Scheduler =
  tasks :: "(string \<times> ScheduledTask) list"
  engine :: "cron_task list"
  logs :: "log_entry list"
  calls :: "call list"
  TZ :: "string option"

definition new_Scheduler :: "string option \<Rightarrow> Scheduler" where
  "new_Scheduler tz = \<lparr>tasks = [], engine = [], logs = [], calls = [], TZ = tz\<rparr>"

definition logger :: "level \<Rightarrow> string \<Rightarrow> (string \<times> meta) list \<Rightarrow> Scheduler \<Rightarrow> Scheduler" where
  "logger lv msg md s = s\<lparr>logs := logs s @ [(lv, msg, md)]\<rparr>"

definition invoke :: "call \<Rightarrow> Scheduler \<Rightarrow> Scheduler" where
  "invoke c s = s\<lparr>calls := calls s @ [c]\<rparr>"

subsection \<open>The JavaScript Map\<close>

definition Map_has :: "(string \<times> 'v) list \<Rightarrow> string \<Rightarrow> bool" where
  "Map_has m k = (map_of m k \<noteq> None)"

definition Map_get :: "(string \<times> 'v) list \<Rightarrow> string \<Rightarrow> 'v option" where
  "Map_get m k = map_of m k"

definition Map_set :: "(string \<times> 'v) list \<Rightarrow> string \<Rightarrow> 'v \<Rightarrow> (string \<times> 'v) list" where
  "Map_set m k v =
     (if Map_has m k then map (\<lambda>(k', v'). if k' = k then (k', v) else (k', v')) m
      else m @ [(k, v)])"

definition Map_delete :: "(string \<times> 'v) list \<Rightarrow> string \<Rightarrow> (string \<times> 'v) list" where
  "Map_delete m k = filter (\<lambda>(k', v'). k' \<noteq> k) m"

section \<open>The scheduler: start, stop, inspection\<close>

text \<open>
  \<^verbatim>\<open>getNextRunTime\<close> returns null whatever the expression.
\<close>

definition getNextRunTime :: "string \<Rightarrow> meta" where
  "getNextRunTime cronExpression = MNull"

text \<open>
  What the scheduler uses of node-cron, as parameters: \<^verbatim>\<open>cron.validate\<close>, and whether
  \<^verbatim>\<open>cron.schedule\<close> accepts a time zone. \<^verbatim>\<open>cron.schedule\<close> builds a date formatter for
  the zone it is given and throws a RangeError for a zone the platform does not know.
\<close>

record node_cron =
  cron_validate :: "string \<Rightarrow> bool"
  cron_accepts_zone :: "string \<Rightarrow> bool"

text \<open>
  The option \<^verbatim>\<open>timezone: process.env.TZ ?? 'UTC'\<close>.
\<close>

definition timezone_option :: "string option \<Rightarrow> string" where
  "timezone_option tz = (case tz of None \<Rightarrow> ''UTC'' | Some z \<Rightarrow> z)"

text \<open>
  \<^verbatim>\<open>scheduleTask\<close>. A throw is the result \<open>Inl\<close>, with the state as it is at the throw:
  the two throws of the function itself, and the throw of \<^verbatim>\<open>cron.schedule\<close>, which is
  called outside any \<^verbatim>\<open>try\<close> and before \<^verbatim>\<open>tasks.set\<close>.
\<close>

definition scheduleTask ::
  "node_cron \<Rightarrow> Schedule \<Rightarrow> Scheduler \<Rightarrow> (error + unit) \<times> Scheduler" where
  "scheduleTask lib sch s =
     (if Map_has (tasks s) (name sch) then
        (Inl (Thrown SchedulerError
               (''Schedule '' @ [CHR 0x27] @ name sch @ [CHR 0x27] @ '' is already scheduled'')), s)
      else if \<not> cron_validate lib (cron sch) then
        (Inl (Thrown SchedulerError
               (''Invalid cron expression for schedule '' @ [CHR 0x27] @ name sch @ [CHR 0x27]
                  @ '': '' @ cron sch)), s)
      else if \<not> cron_accepts_zone lib (timezone_option (TZ s)) then
        (Inl (Thrown RangeError (''Invalid time zone specified: '' @ timezone_option (TZ s))), s)
      else
        let h = length (engine s);
            s1 = s\<lparr>engine := engine s @
                   [\<lparr>expression = cron sch, callback = sch,
                     timezone = timezone_option (TZ s), running = True\<rparr>]\<rparr>;
            s2 = s1\<lparr>tasks := Map_set (tasks s1) (name sch) \<lparr>schedule = sch, task = h\<rparr>\<rparr>
        in (Inr (),
            logger LevelInfo ''Task scheduled''
              [(''name'', MStr (name sch)), (''cron'', MStr (cron sch)),
               (''nextRun'', getNextRunTime (cron sch))] s2))"

text \<open>
  The loop of \<^verbatim>\<open>start\<close>: a throw of \<^verbatim>\<open>scheduleTask\<close> leaves the loop and the function.
\<close>

fun start_loop ::
  "node_cron \<Rightarrow> Schedule list \<Rightarrow> Scheduler \<Rightarrow> (error + unit) \<times> Scheduler" where
  "start_loop lib [] s = (Inr (), s)"
| "start_loop lib (sch # rest) s =
     (if enabled sch then
        (case scheduleTask lib sch s of
           (Inl e, s') \<Rightarrow> (Inl e, s')
         | (Inr u, s') \<Rightarrow> start_loop lib rest s')
      else
        start_loop lib rest
          (logger LevelDebug ''Skipping disabled schedule'' [(''name'', MStr (name sch))] s))"

definition start ::
  "node_cron \<Rightarrow> Schedule list \<Rightarrow> Scheduler \<Rightarrow> (error + unit) \<times> Scheduler" where
  "start lib schedules s =
     (case start_loop lib schedules
             (logger LevelInfo ''Starting scheduler''
                [(''schedulesCount'', MNum (int (length schedules)))] s) of
        (Inl e, s') \<Rightarrow> (Inl e, s')
      | (Inr u, s') \<Rightarrow>
          (Inr (),
           logger LevelInfo ''Scheduler started''
             [(''activeTasksCount'', MNum (int (length (tasks s')))),
              (''totalSchedules'', MNum (int (length schedules)))] s'))"

text \<open>
  \<^verbatim>\<open>task.stop()\<close> on the trigger with handle \<open>h\<close>. A handle held by the registry is
  always one of the engine (see \<open>registry_ok\<close>); for any other number nothing changes.
\<close>

definition task_stop :: "nat \<Rightarrow> cron_task list \<Rightarrow> cron_task list" where
  "task_stop h eng = (if h < length eng then eng[h := (eng ! h)\<lparr>running := False\<rparr>] else eng)"

fun stop_all_loop :: "(string \<times> ScheduledTask) list \<Rightarrow> Scheduler \<Rightarrow> Scheduler" where
  "stop_all_loop [] s = s"
| "stop_all_loop ((n, t) # rest) s =
     stop_all_loop rest
       (logger LevelDebug ''Stopping task'' [(''name'', MStr n)]
          (s\<lparr>engine := task_stop (task t) (engine s)\<rparr>))"

definition stop :: "string option \<Rightarrow> Scheduler \<Rightarrow> (error + unit) \<times> Scheduler" where
  "stop scheduleName s =
     (case scheduleName of
        Some n \<Rightarrow>
          (case Map_get (tasks s) n of
             Some t \<Rightarrow>
               let s1 = s\<lparr>engine := task_stop (task t) (engine s)\<rparr>;
                   s2 = s1\<lparr>tasks := Map_delete (tasks s1) n\<rparr>
               in (Inr (), logger LevelInfo ''Task stopped'' [(''name'', MStr n)] s2)
           | None \<Rightarrow> (Inr (), logger LevelWarn ''Task not found'' [(''name'', MStr n)] s))
      | None \<Rightarrow>
          let s1 = stop_all_loop (tasks s) s;
              s2 = s1\<lparr>tasks := []\<rparr>
          in (Inr (), logger LevelInfo ''All tasks stopped'' [] s2))"

definition getActiveTasks :: "Scheduler \<Rightarrow> (string \<times> string \<times> meta) list" where
  "getActiveTasks s =
     map (\<lambda>t. (name (schedule t), cron (schedule t), getNextRunTime (cron (schedule t))))
       (map snd (tasks s))"

definition isTaskActive :: "Scheduler \<Rightarrow> string \<Rightarrow> bool" where
  "isTaskActive s scheduleName = Map_has (tasks s) scheduleName"

text \<open>
  The registry's invariant: names are unique, every entry is filed under the name of its
  own definition, which is an enabled one, no two entries hold the same trigger, and every
  handle held is a trigger of the engine that is running and whose callback closes over
  the entry's definition. It holds of a new scheduler and every operation keeps it (lemmas
  \<open>registry_ok_new\<close>, \<open>registry_ok_start\<close>, \<open>registry_ok_stop\<close>,
  \<open>registry_ok_step\<close>).
\<close>

definition registry_ok :: "Scheduler \<Rightarrow> bool" where
  "registry_ok s =
     (distinct (map fst (tasks s)) \<and> distinct (map (\<lambda>e. task (snd e)) (tasks s)) \<and>
      (\<forall>e \<in> set (tasks s).
         task (snd e) < length (engine s) \<and> fst e = name (schedule (snd e)) \<and>
         enabled (schedule (snd e)) \<and> running (engine s ! task (snd e)) \<and>
         callback (engine s ! task (snd e)) = schedule (snd e)))"

text \<open>
  A definition of a batch offends when it is enabled and its cadence is invalid or its name
  is that of a registered task or of an enabled definition before it in the batch
  (\<open>earlier\<close>).
\<close>

definition offends :: "node_cron \<Rightarrow> Scheduler \<Rightarrow> Schedule list \<Rightarrow> Schedule \<Rightarrow> bool" where
  "offends lib s earlier d =
     (enabled d \<and>
      (\<not> cron_validate lib (cron d) \<or> isTaskActive s (name d) \<or>
       name d \<in> set (map name (filter enabled earlier))))"

text \<open>
  What a run of \<^verbatim>\<open>scheduleTask\<close> over the definitions \<open>ds\<close> adds to the registry and to
  the engine when the first handle to be given out is \<open>h\<close>.
\<close>

fun entries_of :: "nat \<Rightarrow> Schedule list \<Rightarrow> (string \<times> ScheduledTask) list" where
  "entries_of h [] = []"
| "entries_of h (d # ds) = (name d, \<lparr>schedule = d, task = h\<rparr>) # entries_of (Suc h) ds"

definition triggers_of :: "string option \<Rightarrow> Schedule list \<Rightarrow> cron_task list" where
  "triggers_of tz ds =
     map (\<lambda>d. \<lparr>expression = cron d, callback = d,
                timezone = timezone_option tz, running = True\<rparr>) ds"

section \<open>Output-path expansion\<close>

text \<open>
  \<^verbatim>\<open>String.prototype.replace\<close> with a string pattern, as ECMAScript defines it: only the
  first occurrence of the pattern is replaced, and the replacement text is read by
  GetSubstitution, where \<^verbatim>\<open>$$\<close> stands for a dollar sign, \<^verbatim>\<open>$&\<close> for the matched text,
  \<^verbatim>\<open>$`\<close> for the text before the match and \<^verbatim>\<open>$'\<close> for the text after it. A string
  pattern has no capture groups, so a dollar sign followed by anything else stands for
  itself.

  \<open>split_at_first pat s\<close> finds the first occurrence of \<open>pat\<close> in \<open>s\<close> and returns the text
  before it and the text after it.
\<close>

fun split_at_first :: "string \<Rightarrow> string \<Rightarrow> (string \<times> string) option" where
  "split_at_first pat [] = (if pat = [] then Some ([], []) else None)"
| "split_at_first pat (c # cs) =
     (if take (length pat) (c # cs) = pat then Some ([], drop (length pat) (c # cs))
      else (case split_at_first pat cs of
              None \<Rightarrow> None
            | Some (a, b) \<Rightarrow> Some (c # a, b)))"

fun GetSubstitution :: "string \<Rightarrow> string \<Rightarrow> string \<Rightarrow> string \<Rightarrow> string" where
  "GetSubstitution matched before after [] = []"
| "GetSubstitution matched before after [c] = [c]"
| "GetSubstitution matched before after (c # d # r) =
     (if c = CHR ''$'' \<and> d = CHR ''$'' then CHR ''$'' # GetSubstitution matched before after r
      else if c = CHR ''$'' \<and> d = CHR ''&'' then matched @ GetSubstitution matched before after r
      else if c = CHR ''$'' \<and> d = CHR 0x60 then before @ GetSubstitution matched before after r
      else if c = CHR ''$'' \<and> d = CHR 0x27 then after @ GetSubstitution matched before after r
      else c # GetSubstitution matched before after (d # r))"

definition replace :: "string \<Rightarrow> string \<Rightarrow> string \<Rightarrow> string" where
  "replace s pat replacement =
     (case split_at_first pat s of
        None \<Rightarrow> s
      | Some (a, b) \<Rightarrow> a @ GetSubstitution pat a b replacement @ b)"

text \<open>
  \<^verbatim>\<open>.replace(/[:.]/g, '-')\<close>: the pattern is a global regular expression, so every colon
  and every full stop is replaced. \<^verbatim>\<open>.split('T')[0] ?? ''\<close> is the text before the first
  \<^verbatim>\<open>T\<close> (the whole string when there is none).
\<close>

definition replace_colon_dot :: "string \<Rightarrow> string" where
  "replace_colon_dot s = map (\<lambda>c. if c = CHR '':'' \<or> c = CHR ''.'' then CHR ''-'' else c) s"

definition split_T_first :: "string \<Rightarrow> string" where
  "split_T_first s = takeWhile (\<lambda>c. c \<noteq> CHR ''T'') s"

text \<open>
  The local \<^verbatim>\<open>filename\<close> of \<^verbatim>\<open>saveOutput\<close>; \<open>outPath\<close> is its parameter
  \<^verbatim>\<open>outputPath\<close>. \<open>iso1\<close> and \<open>iso2\<close> are what the two calls
  \<^verbatim>\<open>new Date().toISOString()\<close> return.
\<close>

definition saveOutput_filename :: "string \<Rightarrow> string \<Rightarrow> string \<Rightarrow> string \<Rightarrow> string" where
  "saveOutput_filename outPath scheduleName iso1 iso2 =
     (let timestamp = replace_colon_dot iso1
      in replace (replace (replace outPath ''{name}'' scheduleName) ''{timestamp}'' timestamp)
           ''{date}'' (split_T_first iso2))"

text \<open>
  The substitution the specification describes, to compare \<open>replace\<close> with: the first
  occurrence of the placeholder is replaced by the text as it is.
\<close>

definition substitute_first :: "string \<Rightarrow> string \<Rightarrow> string \<Rightarrow> string" where
  "substitute_first s pat text =
     (case split_at_first pat s of
        None \<Rightarrow> s
      | Some (a, b) \<Rightarrow> a @ text @ b)"

text \<open>
  The number of occurrences of a pattern in a string (the positions at which it starts),
  and the shape of the three placeholders: an opening brace, a text without braces, a
  closing brace.
\<close>

fun occurrences :: "string \<Rightarrow> string \<Rightarrow> nat" where
  "occurrences pat [] = 0"
| "occurrences pat (c # cs) =
     (if take (length pat) (c # cs) = pat then 1 else 0) + occurrences pat cs"

definition braced :: "string \<Rightarrow> bool" where
  "braced pat =
     (case pat of
        [] \<Rightarrow> False
      | c # r \<Rightarrow>
          c = CHR ''{'' \<and> r \<noteq> [] \<and> last r = CHR ''}'' \<and> CHR ''{'' \<notin> set r \<and>
          CHR ''}'' \<notin> set (butlast r))"


section \<open>One firing: executeSchedule and saveOutput\<close>

text \<open>
  What a firing gets from outside the scheduler: the clock (\<^verbatim>\<open>Date.now()\<close> at the start of
  the routine and where the outcome is logged), the answer of \<^verbatim>\<open>mcpClient.isReady()\<close>, how
  each awaited promise settles (\<open>Inl\<close> is a rejection), the two ISO strings, and Node's
  \<^verbatim>\<open>path.resolve\<close> and \<^verbatim>\<open>path.dirname\<close>.
\<close>

record firing_env =
  now_start :: int
  now_end :: int
  ready :: bool
  connect_outcome :: "error + unit"
  executePrompt_outcome :: "error + string"
  iso_timestamp :: string
  iso_date :: string
  path_resolve :: "string \<Rightarrow> string"
  path_dirname :: "string \<Rightarrow> string"
  mkdir_outcome :: "error + unit"
  writeFile_outcome :: "error + unit"

definition log_output_saved :: "string \<Rightarrow> string \<Rightarrow> string \<Rightarrow> Scheduler \<Rightarrow> Scheduler" where
  "log_output_saved scheduleName fullPath content s =
     logger LevelDebug ''Output saved''
       [(''schedule'', MStr scheduleName), (''path'', MStr fullPath),
        (''size'', MNum (int (length content)))] s"

text \<open>
  The catch block of \<^verbatim>\<open>saveOutput\<close>: it logs and throws a SchedulerError.
\<close>

definition saveOutput_catch ::
  "string \<Rightarrow> string \<Rightarrow> error \<Rightarrow> Scheduler \<Rightarrow> (error + unit) \<times> Scheduler" where
  "saveOutput_catch scheduleName outPath e s =
     (Inl (Thrown SchedulerError (''Failed to save output: '' @ message e)),
      logger LevelError ''Failed to save output''
        [(''schedule'', MStr scheduleName), (''path'', MStr outPath),
         (''error'', MStr (message e))] s)"

definition saveOutput_try ::
  "firing_env \<Rightarrow> string \<Rightarrow> string \<Rightarrow> string \<Rightarrow> Scheduler \<Rightarrow> (error + unit) \<times> Scheduler" where
  "saveOutput_try env scheduleName outPath content s =
     (let filename = saveOutput_filename outPath scheduleName (iso_timestamp env) (iso_date env);
          fullPath = path_resolve env filename;
          dir = path_dirname env fullPath;
          s1 = invoke (Mkdir dir) s
      in case mkdir_outcome env of
           Inl e \<Rightarrow> (Inl e, s1)
         | Inr u \<Rightarrow>
             let s2 = invoke (WriteFile fullPath content) s1
             in (case writeFile_outcome env of
                   Inl e \<Rightarrow> (Inl e, s2)
                 | Inr u' \<Rightarrow> (Inr (), log_output_saved scheduleName fullPath content s2)))"

definition saveOutput ::
  "firing_env \<Rightarrow> string \<Rightarrow> string \<Rightarrow> string \<Rightarrow> Scheduler \<Rightarrow> (error + unit) \<times> Scheduler" where
  "saveOutput env scheduleName outPath content s =
     (case saveOutput_try env scheduleName outPath content s of
        (Inl e, s') \<Rightarrow> saveOutput_catch scheduleName outPath e s'
      | (Inr u, s') \<Rightarrow> (Inr (), s'))"

text \<open>
  \<^verbatim>\<open>Boolean(schedule.outputPath)\<close> is false for \<^verbatim>\<open>undefined\<close> and for the empty string.
\<close>

definition log_completed :: "Schedule \<Rightarrow> int \<Rightarrow> Scheduler \<Rightarrow> Scheduler" where
  "log_completed sch duration s =
     logger LevelInfo ''Scheduled task completed''
       [(''name'', MStr (name sch)), (''duration'', MNum duration),
        (''outputSaved'', MBool (case outputPath sch of None \<Rightarrow> False | Some p \<Rightarrow> p \<noteq> []))] s"

definition log_failed :: "Schedule \<Rightarrow> error \<Rightarrow> int \<Rightarrow> Scheduler \<Rightarrow> Scheduler" where
  "log_failed sch e duration s =
     logger LevelError ''Failed to execute scheduled task''
       [(''name'', MStr (name sch)), (''error'', MStr (message e)),
        (''duration'', MNum duration)] s"

text \<open>
  The try block of \<^verbatim>\<open>executeSchedule\<close>: \<open>Inl\<close> is an exception on its way to the catch
  block.
\<close>

definition executeSchedule_try ::
  "firing_env \<Rightarrow> Schedule \<Rightarrow> Scheduler \<Rightarrow> (error + unit) \<times> Scheduler" where
  "executeSchedule_try env sch s =
     (case (let s1 = invoke IsReady s
            in if \<not> ready env then
                 (connect_outcome env,
                  invoke Connect
                    (logger LevelWarn ''MCP client not ready, attempting to reconnect'' [] s1))
               else (Inr (), s1)) of
        (Inl e, s2) \<Rightarrow> (Inl e, s2)
      | (Inr u, s2) \<Rightarrow>
          let s3 = invoke (ExecutePrompt (prompt sch)) s2
          in (case executePrompt_outcome env of
                Inl e \<Rightarrow> (Inl e, s3)
              | Inr result \<Rightarrow>
                  (case (case outputPath sch of
                           None \<Rightarrow> (Inr (), s3)
                         | Some p \<Rightarrow> saveOutput env (name sch) p result s3) of
                     (Inl e, s4) \<Rightarrow> (Inl e, s4)
                   | (Inr u', s4) \<Rightarrow>
                       (Inr (), log_completed sch (now_end env - now_start env) s4))))"

text \<open>
  \<^verbatim>\<open>executeSchedule\<close>. The result is how the promise it returns settles.
\<close>

definition executeSchedule ::
  "firing_env \<Rightarrow> Schedule \<Rightarrow> Scheduler \<Rightarrow> (error + unit) \<times> Scheduler" where
  "executeSchedule env sch s =
     (case executeSchedule_try env sch
             (logger LevelInfo ''Executing scheduled task'' [(''name'', MStr (name sch))] s) of
        (Inl e, s') \<Rightarrow> (Inr (), log_failed sch e (now_end env - now_start env) s')
      | (Inr u, s') \<Rightarrow> (Inr (), s'))"

text \<open>
  The calls to the file system that a firing makes after the prompt executor has answered.
\<close>

definition persistence_calls :: "firing_env \<Rightarrow> Schedule \<Rightarrow> call list" where
  "persistence_calls env sch =
     (case executePrompt_outcome env of
        Inl e \<Rightarrow> []
      | Inr result \<Rightarrow>
          (case outputPath sch of
             None \<Rightarrow> []
           | Some p \<Rightarrow>
               let fullPath = path_resolve env
                     (saveOutput_filename p (name sch) (iso_timestamp env) (iso_date env))
               in Mkdir (path_dirname env fullPath) #
                  (case mkdir_outcome env of
                     Inl e \<Rightarrow> []
                   | Inr u \<Rightarrow> [WriteFile fullPath result])))"

section \<open>Firings in flight\<close>

text \<open>
  \<^verbatim>\<open>executeSchedule\<close> is an async function: it runs until its first \<^verbatim>\<open>await\<close>, returns
  to its caller, and goes on when the awaited promise settles. An execution in flight is
  the suspended routine: the schedule it was called with, its \<^verbatim>\<open>startTime\<close>, and the
  \<^verbatim>\<open>await\<close> it is suspended at (those of \<^verbatim>\<open>saveOutput\<close> with its \<^verbatim>\<open>outputPath\<close>,
  \<^verbatim>\<open>fullPath\<close> and \<^verbatim>\<open>content\<close>).
\<close>

datatype awaiting =
    AwaitConnect
  | AwaitExecutePrompt
  | AwaitMkdir string string string
  | AwaitWriteFile string string string

record execution =
  ex_schedule :: Schedule
  ex_startTime :: int
  ex_awaiting :: awaiting

text \<open>
  From the call of \<^verbatim>\<open>executeSchedule\<close> to its first \<^verbatim>\<open>await\<close>.
\<close>

definition executeSchedule_begin ::
  "firing_env \<Rightarrow> Schedule \<Rightarrow> Scheduler \<Rightarrow> execution \<times> Scheduler" where
  "executeSchedule_begin env sch s =
     (let s0 = logger LevelInfo ''Executing scheduled task'' [(''name'', MStr (name sch))] s;
          s1 = invoke IsReady s0
      in if \<not> ready env then
           (\<lparr>ex_schedule = sch, ex_startTime = now_start env, ex_awaiting = AwaitConnect\<rparr>,
            invoke Connect
              (logger LevelWarn ''MCP client not ready, attempting to reconnect'' [] s1))
         else
           (\<lparr>ex_schedule = sch, ex_startTime = now_start env, ex_awaiting = AwaitExecutePrompt\<rparr>,
            invoke (ExecutePrompt (prompt sch)) s1))"

text \<open>
  From the settling of the awaited promise to the next \<^verbatim>\<open>await\<close> (\<open>Some\<close>) or to the end of
  the routine (\<open>None\<close>). \<open>env\<close> says how the awaited promise settles and what the clock
  shows then.
\<close>

definition executeSchedule_resume ::
  "firing_env \<Rightarrow> execution \<Rightarrow> Scheduler \<Rightarrow> execution option \<times> Scheduler" where
  "executeSchedule_resume env ex s =
     (let sch = ex_schedule ex; duration = now_end env - ex_startTime ex
      in case ex_awaiting ex of
           AwaitConnect \<Rightarrow>
             (case connect_outcome env of
                Inl e \<Rightarrow> (None, log_failed sch e duration s)
              | Inr u \<Rightarrow>
                  (Some (ex\<lparr>ex_awaiting := AwaitExecutePrompt\<rparr>),
                   invoke (ExecutePrompt (prompt sch)) s))
         | AwaitExecutePrompt \<Rightarrow>
             (case executePrompt_outcome env of
                Inl e \<Rightarrow> (None, log_failed sch e duration s)
              | Inr result \<Rightarrow>
                  (case outputPath sch of
                     None \<Rightarrow> (None, log_completed sch duration s)
                   | Some p \<Rightarrow>
                       let filename =
                             saveOutput_filename p (name sch) (iso_timestamp env) (iso_date env);
                           fullPath = path_resolve env filename;
                           dir = path_dirname env fullPath
                       in (Some (ex\<lparr>ex_awaiting := AwaitMkdir p fullPath result\<rparr>),
                           invoke (Mkdir dir) s)))
         | AwaitMkdir p fullPath content \<Rightarrow>
             (case mkdir_outcome env of
                Inl e \<Rightarrow>
                  (case saveOutput_catch (name sch) p e s of
                     (Inl e', s') \<Rightarrow> (None, log_failed sch e' duration s')
                   | (Inr u, s') \<Rightarrow> (None, log_completed sch duration s'))
              | Inr u \<Rightarrow>
                  (Some (ex\<lparr>ex_awaiting := AwaitWriteFile p fullPath content\<rparr>),
                   invoke (WriteFile fullPath content) s))
         | AwaitWriteFile p fullPath content \<Rightarrow>
             (case writeFile_outcome env of
                Inl e \<Rightarrow>
                  (case saveOutput_catch (name sch) p e s of
                     (Inl e', s') \<Rightarrow> (None, log_failed sch e' duration s')
                   | (Inr u, s') \<Rightarrow> (None, log_completed sch duration s'))
              | Inr u \<Rightarrow>
                  (None,
                   log_completed sch duration (log_output_saved (name sch) fullPath content s))))"

text \<open>
  A firing run without interruption: begin, then resume until the routine has ended (it
  has four \<^verbatim>\<open>await\<close>s at most).
\<close>

fun resume_all ::
  "nat \<Rightarrow> firing_env \<Rightarrow> execution option \<Rightarrow> Scheduler \<Rightarrow> execution option \<times> Scheduler" where
  "resume_all 0 env exo s = (exo, s)"
| "resume_all (Suc n) env None s = (None, s)"
| "resume_all (Suc n) env (Some ex) s =
     (case executeSchedule_resume env ex s of (exo', s') \<Rightarrow> resume_all n env exo' s')"

definition executeSchedule_uninterrupted ::
  "firing_env \<Rightarrow> Schedule \<Rightarrow> Scheduler \<Rightarrow> execution option \<times> Scheduler" where
  "executeSchedule_uninterrupted env sch s =
     (case executeSchedule_begin env sch s of (ex, s') \<Rightarrow> resume_all 4 env (Some ex) s')"

text \<open>
  The running system: the scheduler and the executions in flight. Its events are the
  calls of the public operations, a trigger of the engine matching the time (the engine
  calls the callback of a running trigger, which calls \<^verbatim>\<open>executeSchedule\<close> with
  \<^verbatim>\<open>void\<close>, that is without awaiting it), and the settling of the promise an execution in
  flight awaits.
\<close>

record runtime =
  sched :: Scheduler
  in_flight :: "execution list"

datatype event =
    Start node_cron "Schedule list"
  | Stop "string option"
  | Fire nat firing_env
  | Settle nat firing_env

fun step :: "event \<Rightarrow> runtime \<Rightarrow> runtime" where
  "step (Start lib schedules) r = r\<lparr>sched := snd (start lib schedules (sched r))\<rparr>"
| "step (Stop scheduleName) r = r\<lparr>sched := snd (stop scheduleName (sched r))\<rparr>"
| "step (Fire h env) r =
     (if h < length (engine (sched r)) \<and> running (engine (sched r) ! h) then
        (case executeSchedule_begin env (callback (engine (sched r) ! h)) (sched r) of
           (ex, s') \<Rightarrow> r\<lparr>sched := s', in_flight := in_flight r @ [ex]\<rparr>)
      else r)"
| "step (Settle i env) r =
     (if i < length (in_flight r) then
        (case executeSchedule_resume env (in_flight r ! i) (sched r) of
           (None, s') \<Rightarrow>
             r\<lparr>sched := s', in_flight := take i (in_flight r) @ drop (Suc i) (in_flight r)\<rparr>
         | (Some ex', s') \<Rightarrow> r\<lparr>sched := s', in_flight := (in_flight r)[i := ex']\<rparr>)
      else r)"

definition run :: "event list \<Rightarrow> runtime \<Rightarrow> runtime" where
  "run evs r = foldl (\<lambda>r' ev. step ev r') r evs"

definition new_runtime :: "string option \<Rightarrow> runtime" where
  "new_runtime tz = \<lparr>sched = new_Scheduler tz, in_flight = []\<rparr>"

text \<open>
  The number of executions in flight for a job name.
\<close>

definition in_flight_count :: "runtime \<Rightarrow> string \<Rightarrow> nat" where
  "in_flight_count r n = length (filter (\<lambda>ex. name (ex_schedule ex) = n) (in_flight r))"

section \<open>The tool connection (mcp-client.ts)\<close>

record MCPFilesystemConfig =
  command :: string
  args :: "string list"
  allowedDirectories :: "string list"

record MCPTool =
  tool_name :: string
  description :: string
  inputSchema :: string

text \<open>
  A tool as the SDK's \<^verbatim>\<open>listTools\<close> reports it: the description may be missing.
\<close>

record listed_tool =
  listed_name :: string
  listed_description :: "string option"
  listed_inputSchema :: string

text \<open>
  The connection work: every process spawned, object created and SDK call made, in order.
\<close>

datatype mcp_call =
    Spawn string "string list"
  | NewTransport
  | NewClient
  | ClientConnect
  | ListTools
  | ClientClose
  | TransportClose
  | Kill

text \<open>
  The state of an MCPClient object. An object (client, transport, server process) is the
  number it was created under; \<open>created\<close> counts the objects created so far.
\<close>

record MCPClient =
  config :: MCPFilesystemConfig
  client :: "nat option"
  transport :: "nat option"
  serverProcess :: "nat option"
  tools :: "(string \<times> MCPTool) list"
  isConnected :: bool
  created :: nat
  mcp_logs :: "log_entry list"
  mcp_calls :: "mcp_call list"

definition new_MCPClient :: "MCPFilesystemConfig \<Rightarrow> MCPClient" where
  "new_MCPClient cfg =
     \<lparr>config = cfg, client = None, transport = None, serverProcess = None, tools = [],
      isConnected = False, created = 0, mcp_logs = [], mcp_calls = []\<rparr>"

text \<open>
  What the SDK and the operating system answer during one call: whether \<^verbatim>\<open>spawn\<close> throws,
  and how the promises of \<^verbatim>\<open>client.connect\<close>, \<^verbatim>\<open>client.listTools\<close>,
  \<^verbatim>\<open>client.close\<close> and \<^verbatim>\<open>transport.close\<close> settle. \<^verbatim>\<open>response.tools\<close> may be undefined.
\<close>

record mcp_env =
  spawn_outcome :: "error + unit"
  client_connect_outcome :: "error + unit"
  listTools_outcome :: "error + listed_tool list option"
  client_close_outcome :: "error + unit"
  transport_close_outcome :: "error + unit"

definition mcp_logger :: "level \<Rightarrow> string \<Rightarrow> (string \<times> meta) list \<Rightarrow> MCPClient \<Rightarrow> MCPClient" where
  "mcp_logger lv msg md c = c\<lparr>mcp_logs := mcp_logs c @ [(lv, msg, md)]\<rparr>"

definition mcp_invoke :: "mcp_call \<Rightarrow> MCPClient \<Rightarrow> MCPClient" where
  "mcp_invoke x c = c\<lparr>mcp_calls := mcp_calls c @ [x]\<rparr>"

definition isReady :: "MCPClient \<Rightarrow> bool" where
  "isReady c = (isConnected c \<and> client c \<noteq> None)"

definition getAvailableTools :: "MCPClient \<Rightarrow> MCPTool list" where
  "getAvailableTools c = map snd (tools c)"

text \<open>
  The body of the loop of \<^verbatim>\<open>discoverTools\<close>.
\<close>

definition discover_one :: "listed_tool \<Rightarrow> MCPClient \<Rightarrow> MCPClient" where
  "discover_one tool c =
     mcp_logger LevelDebug ''Discovered tool'' [(''toolName'', MStr (listed_name tool))]
       (c\<lparr>tools := Map_set (tools c) (listed_name tool)
             \<lparr>tool_name = listed_name tool,
              description = (case listed_description tool of None \<Rightarrow> [] | Some d \<Rightarrow> d),
              inputSchema = listed_inputSchema tool\<rparr>\<rparr>)"

definition discoverTools :: "mcp_env \<Rightarrow> MCPClient \<Rightarrow> (error + unit) \<times> MCPClient" where
  "discoverTools env c =
     (if client c = None then (Inl (Thrown MCPError ''Client not connected''), c)
      else
        let c1 = mcp_invoke ListTools c
        in case listTools_outcome env of
             Inl e \<Rightarrow> (Inl (Thrown MCPError ''Failed to discover tools''), c1)
           | Inr None \<Rightarrow> (Inr (), c1)
           | Inr (Some ts) \<Rightarrow> (Inr (), fold discover_one ts c1))"

definition disconnect :: "mcp_env \<Rightarrow> MCPClient \<Rightarrow> (error + unit) \<times> MCPClient" where
  "disconnect env c =
     (let c1 = mcp_logger LevelInfo ''Disconnecting MCP client'' [] c;
          c2 = (if client c1 \<noteq> None then
                  (case client_close_outcome env of
                     Inl e \<Rightarrow>
                       mcp_logger LevelError ''Error closing MCP client''
                         [(''error'', MStr (message e))] (mcp_invoke ClientClose c1)
                   | Inr u \<Rightarrow> mcp_invoke ClientClose c1)
                else c1);
          c3 = (if transport c2 \<noteq> None then
                  (case transport_close_outcome env of
                     Inl e \<Rightarrow>
                       mcp_logger LevelError ''Error closing transport''
                         [(''error'', MStr (message e))] (mcp_invoke TransportClose c2)
                   | Inr u \<Rightarrow> mcp_invoke TransportClose c2)
                else c2);
          c4 = (if serverProcess c3 \<noteq> None then (mcp_invoke Kill c3)\<lparr>serverProcess := None\<rparr>
                else c3)
      in (Inr (), c4\<lparr>client := None, transport := None, tools := [], isConnected := False\<rparr>))"

text \<open>
  The try block of \<^verbatim>\<open>connect\<close>.
\<close>

definition connect_try :: "mcp_env \<Rightarrow> MCPClient \<Rightarrow> (error + unit) \<times> MCPClient" where
  "connect_try env c =
     (let c1 = mcp_logger LevelInfo ''Starting MCP server''
                 [(''command'', MStr (command (config c))), (''args'', MList (args (config c)))] c;
          c2 = mcp_invoke (Spawn (command (config c1)) (args (config c1))) c1
      in case spawn_outcome env of
           Inl e \<Rightarrow> (Inl e, c2)
         | Inr u \<Rightarrow>
             let c3 = c2\<lparr>serverProcess := Some (created c2), created := Suc (created c2)\<rparr>;
                 c4 = (mcp_invoke NewTransport c3)
                        \<lparr>transport := Some (created c3), created := Suc (created c3)\<rparr>;
                 c5 = (mcp_invoke NewClient c4)
                        \<lparr>client := Some (created c4), created := Suc (created c4)\<rparr>;
                 c6 = mcp_invoke ClientConnect c5
             in (case client_connect_outcome env of
                   Inl e \<Rightarrow> (Inl e, c6)
                 | Inr u' \<Rightarrow>
                     (case discoverTools env (c6\<lparr>isConnected := True\<rparr>) of
                        (Inl e, c7) \<Rightarrow> (Inl e, c7)
                      | (Inr u'', c7) \<Rightarrow>
                          (Inr (),
                           mcp_logger LevelInfo ''MCP client connected successfully''
                             [(''toolsCount'', MNum (int (length (tools c7))))] c7))))"

definition connect :: "mcp_env \<Rightarrow> MCPClient \<Rightarrow> (error + unit) \<times> MCPClient" where
  "connect env c =
     (if isConnected c then (Inr (), mcp_logger LevelDebug ''MCP client already connected'' [] c)
      else
        (case connect_try env c of
           (Inl e, c') \<Rightarrow>
             (Inl (Thrown MCPError ''Failed to connect to MCP server''), snd (disconnect env c'))
         | (Inr u, c') \<Rightarrow> (Inr (), c')))"

section \<open>Example inputs\<close>

text \<open>
  Concrete definitions, collaborators' answers and states, at which the theorems below are
  instantiated. \<open>example_cron\<close> stands for node-cron: it rejects one expression and one
  time zone.
\<close>

definition example_cron :: node_cron where
  "example_cron =
     \<lparr>cron_validate = (\<lambda>c. c \<noteq> ''not-a-cron''),
      cron_accepts_zone = (\<lambda>z. z \<noteq> ''Not/AZone'')\<rparr>"

definition job_a :: Schedule where
  "job_a = \<lparr>name = ''job-a'', cron = ''0 * * * *'', enabled = True,
            prompt = ''List the files'', outputPath = None\<rparr>"

definition job_b :: Schedule where
  "job_b = \<lparr>name = ''job-b'', cron = ''30 * * * *'', enabled = True,
            prompt = ''Check the disk'', outputPath = Some ''outputs/{name}-{date}.txt''\<rparr>"

definition job_bad :: Schedule where
  "job_bad = \<lparr>name = ''job-bad'', cron = ''not-a-cron'', enabled = True,
              prompt = ''Never runs'', outputPath = None\<rparr>"

definition job_off :: Schedule where
  "job_off = \<lparr>name = ''job-off'', cron = ''0 0 * * *'', enabled = False,
              prompt = ''Disabled'', outputPath = None\<rparr>"

definition two_running :: Scheduler where
  "two_running = snd (start example_cron [job_a, job_off, job_b] (new_Scheduler None))"

definition env_ok :: firing_env where
  "env_ok =
     \<lparr>now_start = 1000, now_end = 4000, ready = True, connect_outcome = Inr (),
      executePrompt_outcome = Inr ''Two files'',
      iso_timestamp = ''2024-01-15T03:00:00.000Z'', iso_date = ''2024-01-15T03:00:00.001Z'',
      path_resolve = (\<lambda>p. ''/srv/app/'' @ p), path_dirname = (\<lambda>p. ''/srv/app/outputs''),
      mkdir_outcome = Inr (), writeFile_outcome = Inr ()\<rparr>"

definition env_write_fails :: firing_env where
  "env_write_fails = env_ok\<lparr>writeFile_outcome := Inl (Thrown PlainError ''EACCES'')\<rparr>"

definition env_connect_fails :: firing_env where
  "env_connect_fails =
     env_ok\<lparr>ready := False, connect_outcome := Inl (Thrown MCPError ''Failed to connect to MCP server'')\<rparr>"

definition env_executor_fails :: firing_env where
  "env_executor_fails = env_ok\<lparr>executePrompt_outcome := Inl (Thrown APIError ''overloaded'')\<rparr>"

definition env_later :: firing_env where
  "env_later = env_ok\<lparr>now_start := 61000, now_end := 64000\<rparr>"

definition one_in_flight :: runtime where
  "one_in_flight = run [Start example_cron [job_a, job_b], Fire 0 env_ok] (new_runtime None)"

definition example_config :: MCPFilesystemConfig where
  "example_config =
     \<lparr>command = ''npx'', args = [''@modelcontextprotocol/server-filesystem'', ''/data''],
      allowedDirectories = [''/data'']\<rparr>"

definition mcp_env_ok :: mcp_env where
  "mcp_env_ok =
     \<lparr>spawn_outcome = Inr (), client_connect_outcome = Inr (),
      listTools_outcome =
        Inr (Some [\<lparr>listed_name = ''read_file'', listed_description = Some ''Read a file'',
                     listed_inputSchema = ''{}''\<rparr>,
                   \<lparr>listed_name = ''list_directory'', listed_description = None,
                     listed_inputSchema = ''{}''\<rparr>]),
      client_close_outcome = Inr (), transport_close_outcome = Inr ()\<rparr>"

definition connected_once :: MCPClient where
  "connected_once = snd (connect mcp_env_ok (new_MCPClient example_config))"

definition iso_example :: string where
  "iso_example = ''2024-01-15T03:00:00.000Z''"

section \<open>Properties\<close>

subsection \<open>The registry\<close>

lemma logger_fields [simp]:
  "tasks (logger lv msg md s) = tasks s"
  "engine (logger lv msg md s) = engine s"
  "calls (logger lv msg md s) = calls s"
  "TZ (logger lv msg md s) = TZ s"
  "logs (logger lv msg md s) = logs s @ [(lv, msg, md)]"
  by (simp_all add: logger_def)

lemma Map_has_iff: "Map_has m k \<longleftrightarrow> k \<in> fst ` set m"
  by (simp add: Map_has_def map_of_eq_None_iff)

lemma scheduleTask_ok:
  assumes "\<not> Map_has (tasks s) (name sch)" and "cron_validate lib (cron sch)"
    and "cron_accepts_zone lib (timezone_option (TZ s))"
  shows "\<exists>s'. scheduleTask lib sch s = (Inr (), s') \<and>
           tasks s' = tasks s @ entries_of (length (engine s)) [sch] \<and>
           engine s' = engine s @ triggers_of (TZ s) [sch] \<and>
           TZ s' = TZ s \<and> calls s' = calls s"
  using assms by (simp add: scheduleTask_def Map_set_def Let_def triggers_of_def)

lemma scheduleTask_fail:
  assumes "Map_has (tasks s) (name sch) \<or> \<not> cron_validate lib (cron sch)"
  shows "\<exists>m. scheduleTask lib sch s = (Inl (Thrown SchedulerError m), s)"
  using assms by (auto simp add: scheduleTask_def)

lemma scheduleTask_zone:
  assumes "\<not> Map_has (tasks s) (name sch)" and "cron_validate lib (cron sch)"
    and "\<not> cron_accepts_zone lib (timezone_option (TZ s))"
  shows "scheduleTask lib sch s =
    (Inl (Thrown RangeError (''Invalid time zone specified: '' @ timezone_option (TZ s))), s)"
  using assms by (simp add: scheduleTask_def)

lemma entries_of_append:
  "entries_of h (xs @ ys) = entries_of h xs @ entries_of (h + length xs) ys"
  by (induction xs arbitrary: h) simp_all

lemma length_entries_of [simp]: "length (entries_of h ds) = length ds"
  by (induction ds arbitrary: h) simp_all

lemma map_fst_entries_of [simp]: "map fst (entries_of h ds) = map name ds"
  by (induction ds arbitrary: h) simp_all

lemma map_task_entries_of [simp]:
  "map (\<lambda>e. task (snd e)) (entries_of h ds) = [h ..< h + length ds]"
  by (induction ds arbitrary: h) (simp_all add: upt_rec)

lemma map_schedule_entries_of [simp]:
  "map (\<lambda>e. schedule (snd e)) (entries_of h ds) = ds"
  by (induction ds arbitrary: h) simp_all

lemma start_loop_good:
  assumes "\<forall>x \<in> set (filter enabled pre). cron_validate lib (cron x)"
    and "distinct (map name (filter enabled pre))"
    and "\<forall>x \<in> set (filter enabled pre). \<not> Map_has (tasks s) (name x)"
    and "cron_accepts_zone lib (timezone_option (TZ s))"
  shows "\<exists>s'. start_loop lib (pre @ rest) s = start_loop lib rest s' \<and>
           tasks s' = tasks s @ entries_of (length (engine s)) (filter enabled pre) \<and>
           engine s' = engine s @ triggers_of (TZ s) (filter enabled pre) \<and>
           TZ s' = TZ s \<and> calls s' = calls s"
  using assms
proof (induction pre arbitrary: s)
  case Nil
  show ?case by (intro exI[of _ s]) (simp add: triggers_of_def)
next
  case (Cons d pre)
  show ?case
  proof (cases "enabled d")
    case False
    let ?s1 = "logger LevelDebug ''Skipping disabled schedule'' [(''name'', MStr (name d))] s"
    from Cons.prems False have
      "\<exists>s'. start_loop lib (pre @ rest) ?s1 = start_loop lib rest s' \<and>
           tasks s' = tasks ?s1 @ entries_of (length (engine ?s1)) (filter enabled pre) \<and>
           engine s' = engine ?s1 @ triggers_of (TZ ?s1) (filter enabled pre) \<and>
           TZ s' = TZ ?s1 \<and> calls s' = calls ?s1"
      by (intro Cons.IH) simp_all
    with False show ?thesis by simp
  next
    case True
    with Cons.prems have ok: "\<not> Map_has (tasks s) (name d)" "cron_validate lib (cron d)"
      "cron_accepts_zone lib (timezone_option (TZ s))" by simp_all
    from scheduleTask_ok[of s d lib, OF ok] obtain s1 where
      s1: "scheduleTask lib d s = (Inr (), s1)"
        "tasks s1 = tasks s @ entries_of (length (engine s)) [d]"
        "engine s1 = engine s @ triggers_of (TZ s) [d]" "TZ s1 = TZ s" "calls s1 = calls s"
      by blast
    have fresh: "\<forall>x \<in> set (filter enabled pre). \<not> Map_has (tasks s1) (name x)"
    proof
      fix x assume x: "x \<in> set (filter enabled pre)"
      with Cons.prems True have "\<not> Map_has (tasks s) (name x)" by simp
      moreover from Cons.prems(2) True x have "name x \<noteq> name d" by (auto simp add: image_iff)
      ultimately show "\<not> Map_has (tasks s1) (name x)"
        by (simp add: s1 Map_has_iff)
    qed
    from Cons.prems True have
      "\<exists>s'. start_loop lib (pre @ rest) s1 = start_loop lib rest s' \<and>
           tasks s' = tasks s1 @ entries_of (length (engine s1)) (filter enabled pre) \<and>
           engine s' = engine s1 @ triggers_of (TZ s1) (filter enabled pre) \<and>
           TZ s' = TZ s1 \<and> calls s' = calls s1"
      by (intro Cons.IH fresh) (simp_all add: s1(4))
    then obtain s' where s': "start_loop lib (pre @ rest) s1 = start_loop lib rest s'"
      "tasks s' = tasks s1 @ entries_of (length (engine s1)) (filter enabled pre)"
      "engine s' = engine s1 @ triggers_of (TZ s1) (filter enabled pre)"
      "TZ s' = TZ s1" "calls s' = calls s1" by blast
    show ?thesis
      using True s1 s' by (intro exI[of _ s']) (simp add: triggers_of_def)
  qed
qed

lemma start_loop_general:
  "start_loop lib batch s = (r, s') \<Longrightarrow>
     \<exists>ds. set ds \<subseteq> set (filter enabled batch) \<and> distinct (map name ds) \<and>
       (\<forall>x \<in> set ds. \<not> Map_has (tasks s) (name x)) \<and>
       tasks s' = tasks s @ entries_of (length (engine s)) ds \<and>
       engine s' = engine s @ triggers_of (TZ s) ds \<and> TZ s' = TZ s \<and> calls s' = calls s"
proof (induction batch arbitrary: s)
  case Nil
  then show ?case by (intro exI[of _ "[]"]) (auto simp add: triggers_of_def)
next
  case (Cons d batch)
  show ?case
  proof (cases "enabled d")
    case False
    let ?s1 = "logger LevelDebug ''Skipping disabled schedule'' [(''name'', MStr (name d))] s"
    from Cons.prems False have "start_loop lib batch ?s1 = (r, s')" by simp
    from Cons.IH[OF this] obtain ds where
      "set ds \<subseteq> set (filter enabled batch)" "distinct (map name ds)"
      "\<forall>x \<in> set ds. \<not> Map_has (tasks ?s1) (name x)"
      "tasks s' = tasks ?s1 @ entries_of (length (engine ?s1)) ds"
      "engine s' = engine ?s1 @ triggers_of (TZ ?s1) ds" "TZ s' = TZ ?s1" "calls s' = calls ?s1"
      by blast
    then show ?thesis using False by (intro exI[of _ ds]) auto
  next
    case True
    show ?thesis
    proof (cases "Map_has (tasks s) (name d) \<or> \<not> cron_validate lib (cron d)")
      case bad: True
      from scheduleTask_fail[of s d lib, OF bad] obtain m where
        "scheduleTask lib d s = (Inl (Thrown SchedulerError m), s)" by blast
      with Cons.prems True have "s' = s" by simp
      then show ?thesis by (intro exI[of _ "[]"]) (auto simp add: triggers_of_def)
    next
      case False
      then have ok: "\<not> Map_has (tasks s) (name d)" "cron_validate lib (cron d)" by simp_all
      show ?thesis
      proof (cases "cron_accepts_zone lib (timezone_option (TZ s))")
        case nz: False
        from scheduleTask_zone[OF ok nz] Cons.prems True have "s' = s" by simp
        then show ?thesis by (intro exI[of _ "[]"]) (auto simp add: triggers_of_def)
      next
        case z: True
      from scheduleTask_ok[of s d lib, OF ok z] obtain s1 where
        s1: "scheduleTask lib d s = (Inr (), s1)"
          "tasks s1 = tasks s @ entries_of (length (engine s)) [d]"
          "engine s1 = engine s @ triggers_of (TZ s) [d]" "TZ s1 = TZ s" "calls s1 = calls s"
        by blast
      with Cons.prems True have "start_loop lib batch s1 = (r, s')" by simp
      from Cons.IH[OF this] obtain ds where ds:
        "set ds \<subseteq> set (filter enabled batch)" "distinct (map name ds)"
        "\<forall>x \<in> set ds. \<not> Map_has (tasks s1) (name x)"
        "tasks s' = tasks s1 @ entries_of (length (engine s1)) ds"
        "engine s' = engine s1 @ triggers_of (TZ s1) ds" "TZ s' = TZ s1" "calls s' = calls s1"
        by blast
      have fresh: "\<forall>x \<in> set ds. name x \<noteq> name d \<and> \<not> Map_has (tasks s) (name x)"
        using ds(3) by (auto simp add: s1 Map_has_iff)
      show ?thesis
      proof (intro exI[of _ "d # ds"] conjI)
        show "set (d # ds) \<subseteq> set (filter enabled (d # batch))" using ds(1) True by auto
        show "distinct (map name (d # ds))" using ds(2) fresh by (auto simp add: image_iff)
        show "\<forall>x \<in> set (d # ds). \<not> Map_has (tasks s) (name x)" using fresh ok by simp
        show "tasks s' = tasks s @ entries_of (length (engine s)) (d # ds)"
          using ds(4) s1 by (simp add: triggers_of_def)
        show "engine s' = engine s @ triggers_of (TZ s) (d # ds)"
          using ds(5) s1 by (simp add: triggers_of_def)
        show "TZ s' = TZ s" using ds s1 by simp
        show "calls s' = calls s" using ds s1 by simp
      qed
      qed
    qed
  qed
qed

lemma start_general:
  assumes "start lib batch s = (r, s')"
  shows "\<exists>ds. set ds \<subseteq> set (filter enabled batch) \<and> distinct (map name ds) \<and>
       (\<forall>x \<in> set ds. \<not> Map_has (tasks s) (name x)) \<and>
       tasks s' = tasks s @ entries_of (length (engine s)) ds \<and>
       engine s' = engine s @ triggers_of (TZ s) ds \<and> TZ s' = TZ s \<and> calls s' = calls s"
proof -
  let ?s0 = "logger LevelInfo ''Starting scheduler''
                [(''schedulesCount'', MNum (int (length batch)))] s"
  obtain r1 s1 where l: "start_loop lib batch ?s0 = (r1, s1)" by (cases "start_loop lib batch ?s0")
  from start_loop_general[OF l] obtain ds where ds:
    "set ds \<subseteq> set (filter enabled batch)" "distinct (map name ds)"
    "\<forall>x \<in> set ds. \<not> Map_has (tasks ?s0) (name x)"
    "tasks s1 = tasks ?s0 @ entries_of (length (engine ?s0)) ds"
    "engine s1 = engine ?s0 @ triggers_of (TZ ?s0) ds" "TZ s1 = TZ ?s0" "calls s1 = calls ?s0"
    by blast
  from assms l have "tasks s' = tasks s1 \<and> engine s' = engine s1 \<and> TZ s' = TZ s1 \<and> calls s' = calls s1"
    by (auto simp add: start_def split: sum.splits)
  with ds show ?thesis by (intro exI[of _ ds]) simp
qed

lemma registry_ok_new: "registry_ok (new_Scheduler tz)"
  by (simp add: registry_ok_def new_Scheduler_def)

lemma set_entries_of:
  "e \<in> set (entries_of h ds) \<Longrightarrow> h \<le> task (snd e) \<and> task (snd e) < h + length ds \<and>
     schedule (snd e) \<in> set ds \<and> fst e = name (schedule (snd e))"
  by (induction ds arbitrary: h) fastforce+

lemma set_entries_of_nth:
  "e \<in> set (entries_of h ds) \<Longrightarrow>
     \<exists>k < length ds. e = (name (ds ! k), \<lparr>schedule = ds ! k, task = h + k\<rparr>)"
proof (induction ds arbitrary: h)
  case Nil
  then show ?case by simp
next
  case (Cons d ds)
  show ?case
  proof (cases "e = (name d, \<lparr>schedule = d, task = h\<rparr>)")
    case True
    then show ?thesis by (intro exI[of _ 0]) simp
  next
    case False
    with Cons.prems have "e \<in> set (entries_of (Suc h) ds)" by simp
    from Cons.IH[OF this] obtain k where "k < length ds"
      "e = (name (ds ! k), \<lparr>schedule = ds ! k, task = Suc h + k\<rparr>)" by blast
    then show ?thesis by (intro exI[of _ "Suc k"]) simp
  qed
qed

lemma registry_ok_start:
  assumes "registry_ok s" and "start lib batch s = (r, s')"
  shows "registry_ok s'"
proof -
  from start_general[OF assms(2)] obtain ds where ds:
    "set ds \<subseteq> set (filter enabled batch)"
    "distinct (map name ds)" "\<forall>x \<in> set ds. \<not> Map_has (tasks s) (name x)"
    "tasks s' = tasks s @ entries_of (length (engine s)) ds"
    "engine s' = engine s @ triggers_of (TZ s) ds" by blast
  have "distinct (map fst (tasks s'))"
    using assms(1) ds(2,3) by (fastforce simp add: ds(4) registry_ok_def Map_has_iff image_iff)
  moreover have "distinct (map (\<lambda>e. task (snd e)) (tasks s'))"
    using assms(1) by (auto simp add: ds(4) registry_ok_def)
  moreover have "\<forall>e \<in> set (tasks s'). task (snd e) < length (engine s') \<and>
      fst e = name (schedule (snd e)) \<and> enabled (schedule (snd e)) \<and>
      running (engine s' ! task (snd e)) \<and> callback (engine s' ! task (snd e)) = schedule (snd e)"
  proof
    fix e assume "e \<in> set (tasks s')"
    then consider "e \<in> set (tasks s)" | "e \<in> set (entries_of (length (engine s)) ds)"
      by (auto simp add: ds(4))
    then show "task (snd e) < length (engine s') \<and>
      fst e = name (schedule (snd e)) \<and> enabled (schedule (snd e)) \<and>
      running (engine s' ! task (snd e)) \<and> callback (engine s' ! task (snd e)) = schedule (snd e)"
    proof cases
      case 1
      with assms(1) show ?thesis by (auto simp add: registry_ok_def ds(5) nth_append)
    next
      case 2
      from set_entries_of_nth[OF 2] obtain k where k: "k < length ds"
        "e = (name (ds ! k), \<lparr>schedule = ds ! k, task = length (engine s) + k\<rparr>)" by blast
      from k(1) have "ds ! k \<in> set ds" by simp
      with ds(1) have "enabled (ds ! k)" by auto
      with k show ?thesis by (simp add: ds(5) triggers_of_def nth_append)
    qed
  qed
  ultimately show ?thesis by (simp add: registry_ok_def)
qed

subsection \<open>stop\<close>

lemma task_stop_length [simp]: "length (task_stop h eng) = length eng"
  by (simp add: task_stop_def)

lemma task_stop_nth:
  "task_stop h eng ! k = (if k = h \<and> h < length eng then (eng ! h)\<lparr>running := False\<rparr> else eng ! k)"
  by (simp add: task_stop_def)

lemma stop_all_loop_fields [simp]:
  "tasks (stop_all_loop ts s) = tasks s"
  "TZ (stop_all_loop ts s) = TZ s"
  "calls (stop_all_loop ts s) = calls s"
  "length (engine (stop_all_loop ts s)) = length (engine s)"
  by (induction ts s rule: stop_all_loop.induct) simp_all

lemma stop_all_loop_stopped:
  "k < length (engine s) \<Longrightarrow> \<not> running (engine s ! k) \<Longrightarrow>
     \<not> running (engine (stop_all_loop ts s) ! k)"
  by (induction ts s rule: stop_all_loop.induct) (simp_all add: task_stop_nth)

lemma stop_all_loop_stops:
  "e \<in> set ts \<Longrightarrow> task (snd e) < length (engine s) \<Longrightarrow>
     \<not> running (engine (stop_all_loop ts s) ! task (snd e))"
proof (induction ts s rule: stop_all_loop.induct)
  case (1 s)
  then show ?case by simp
next
  case (2 n t rest s)
  let ?s1 = "logger LevelDebug ''Stopping task'' [(''name'', MStr n)]
          (s\<lparr>engine := task_stop (task t) (engine s)\<rparr>)"
  show ?case
  proof (cases "e = (n, t)")
    case True
    have "\<not> running (engine ?s1 ! task t)" using 2 True by (simp add: task_stop_nth)
    moreover have "task t < length (engine ?s1)" using 2 True by simp
    ultimately show ?thesis using True stop_all_loop_stopped[of "task t" ?s1 rest] by simp
  next
    case False
    with 2 show ?thesis by simp
  qed
qed

lemma stop_all_loop_others:
  "k \<notin> (\<lambda>e. task (snd e)) ` set ts \<Longrightarrow> engine (stop_all_loop ts s) ! k = engine s ! k"
  by (induction ts s rule: stop_all_loop.induct) (auto simp add: task_stop_nth)

lemma map_of_filter_other:
  "m \<noteq> n \<Longrightarrow> map_of (filter (\<lambda>(k', v'). k' \<noteq> n) xs) m = map_of xs m"
  by (induction xs) auto

lemma map_of_filter_same: "map_of (filter (\<lambda>(k', v'). k' \<noteq> n) xs) n = None"
  by (induction xs) auto

lemma registry_ok_stop:
  assumes "registry_ok s"
  shows "registry_ok (snd (stop scheduleName s))"
proof (cases scheduleName)
  case None
  then show ?thesis by (simp add: stop_def registry_ok_def Let_def)
next
  case (Some n)
  show ?thesis
  proof (cases "Map_get (tasks s) n")
    case None
    with Some assms show ?thesis by (simp add: stop_def registry_ok_def)
  next
    case (Some t)
    have st: "tasks (snd (stop scheduleName s)) = filter (\<lambda>e. fst e \<noteq> n) (tasks s)"
      "length (engine (snd (stop scheduleName s))) = length (engine s)"
      using Some \<open>scheduleName = Some n\<close>
      by (simp_all add: stop_def Let_def Map_delete_def case_prod_unfold)
    have mem: "(n, t) \<in> set (tasks s)" using Some by (simp add: Map_get_def map_of_SomeD)
    have eng: "engine (snd (stop scheduleName s)) = task_stop (task t) (engine s)"
      using Some \<open>scheduleName = Some n\<close> by (simp add: stop_def Let_def)
    have other: "task (snd e) \<noteq> task t" if "e \<in> set (tasks s)" "fst e \<noteq> n" for e
    proof -
      have "distinct (map (\<lambda>e. task (snd e)) (tasks s))" using assms by (simp add: registry_ok_def)
      with that mem show ?thesis
        by (metis (mono_tags, lifting) distinct_map fst_conv inj_onD snd_conv)
    qed
    from assms show ?thesis
      unfolding registry_ok_def st eng
      by (auto simp add: distinct_map_filter task_stop_nth dest: other)
  qed
qed

text \<open>
  Claim C6. \<^verbatim>\<open>stop(name)\<close> stops the trigger of that one task and takes it out of the
  registry; every other registered task stays registered with its trigger as it was. For a
  name that is not registered, \<^verbatim>\<open>stop\<close> logs the warning "Task not found", does not throw
  and changes nothing else. \<^verbatim>\<open>stop()\<close> stops every registered trigger and empties the
  registry, so that \<^verbatim>\<open>getActiveTasks()\<close> returns the empty list.
\<close>
theorem stop_semantics:
  assumes "registry_ok s"
  shows "(\<forall>t. Map_get (tasks s) n = Some t \<longrightarrow>
            fst (stop (Some n) s) = Inr () \<and>
            \<not> isTaskActive (snd (stop (Some n) s)) n \<and>
            \<not> running (engine (snd (stop (Some n) s)) ! task t) \<and>
            tasks (snd (stop (Some n) s)) = filter (\<lambda>e. fst e \<noteq> n) (tasks s) \<and>
            length (engine (snd (stop (Some n) s))) = length (engine s) \<and>
            (\<forall>e \<in> set (tasks s). fst e \<noteq> n \<longrightarrow>
               Map_get (tasks (snd (stop (Some n) s))) (fst e) = Some (snd e) \<and>
               engine (snd (stop (Some n) s)) ! task (snd e) = engine s ! task (snd e))) \<and>
         (Map_get (tasks s) n = None \<longrightarrow>
            stop (Some n) s =
              (Inr (), s\<lparr>logs := logs s @ [(LevelWarn, ''Task not found'', [(''name'', MStr n)])]\<rparr>)) \<and>
         fst (stop None s) = Inr () \<and>
         tasks (snd (stop None s)) = [] \<and>
         getActiveTasks (snd (stop None s)) = [] \<and>
         length (engine (snd (stop None s))) = length (engine s) \<and>
         (\<forall>e \<in> set (tasks s). \<not> running (engine (snd (stop None s)) ! task (snd e)))"
proof (intro conjI allI impI)
  fix t assume t: "Map_get (tasks s) n = Some t"
  then have mem: "(n, t) \<in> set (tasks s)" by (simp add: Map_get_def map_of_SomeD)
  have st: "snd (stop (Some n) s) =
      logger LevelInfo ''Task stopped'' [(''name'', MStr n)]
        (s\<lparr>engine := task_stop (task t) (engine s), tasks := Map_delete (tasks s) n\<rparr>)"
    using t by (simp add: stop_def Let_def)
  show "fst (stop (Some n) s) = Inr ()" using t by (simp add: stop_def Let_def)
  show "\<not> isTaskActive (snd (stop (Some n) s)) n"
    by (simp add: st isTaskActive_def Map_has_def Map_delete_def map_of_filter_same)
  show "\<not> running (engine (snd (stop (Some n) s)) ! task t)"
    using assms mem by (auto simp add: st task_stop_nth registry_ok_def)
  show "tasks (snd (stop (Some n) s)) = filter (\<lambda>e. fst e \<noteq> n) (tasks s)"
    by (simp add: st Map_delete_def case_prod_unfold)
  show "length (engine (snd (stop (Some n) s))) = length (engine s)" by (simp add: st)
  show "\<forall>e \<in> set (tasks s). fst e \<noteq> n \<longrightarrow>
               Map_get (tasks (snd (stop (Some n) s))) (fst e) = Some (snd e) \<and>
               engine (snd (stop (Some n) s)) ! task (snd e) = engine s ! task (snd e)"
  proof (intro ballI impI conjI)
    fix e assume e: "e \<in> set (tasks s)" "fst e \<noteq> n"
    have d: "distinct (map fst (tasks s))" using assms by (simp add: registry_ok_def)
    from e(1) d have "map_of (tasks s) (fst e) = Some (snd e)" by simp
    then show "Map_get (tasks (snd (stop (Some n) s))) (fst e) = Some (snd e)"
      using e(2) by (simp add: st Map_get_def Map_delete_def map_of_filter_other)
    have "distinct (map (\<lambda>e. task (snd e)) (tasks s))" using assms by (simp add: registry_ok_def)
    with e mem have "task (snd e) \<noteq> task t"
      by (metis (mono_tags, lifting) distinct_map fst_conv inj_onD snd_conv)
    then show "engine (snd (stop (Some n) s)) ! task (snd e) = engine s ! task (snd e)"
      by (simp add: st task_stop_nth)
  qed
next
  assume "Map_get (tasks s) n = None"
  then show "stop (Some n) s =
      (Inr (), s\<lparr>logs := logs s @ [(LevelWarn, ''Task not found'', [(''name'', MStr n)])]\<rparr>)"
    by (simp add: stop_def logger_def)
next
  show "fst (stop None s) = Inr ()" by (simp add: stop_def Let_def)
  show "tasks (snd (stop None s)) = []" by (simp add: stop_def Let_def)
  show "getActiveTasks (snd (stop None s)) = []" by (simp add: stop_def Let_def getActiveTasks_def)
  show "length (engine (snd (stop None s))) = length (engine s)" by (simp add: stop_def Let_def)
  show "\<forall>e \<in> set (tasks s). \<not> running (engine (snd (stop None s)) ! task (snd e))"
  proof
    fix e assume e: "e \<in> set (tasks s)"
    with assms have "task (snd e) < length (engine s)" by (simp add: registry_ok_def)
    from stop_all_loop_stops[OF e this] show "\<not> running (engine (snd (stop None s)) ! task (snd e))"
      by (simp add: stop_def Let_def)
  qed
qed

subsection \<open>start: disabled definitions, failure without rollback\<close>

text \<open>
  Claim C8. Whatever the batch and whether \<^verbatim>\<open>start\<close> returns or throws, what it adds to
  the registry and to the engine comes from enabled definitions only: no registry entry and
  no trigger is created for a definition with \<^verbatim>\<open>enabled = false\<close>. When no enabled
  definition of the batch and no registered task bears its name, \<^verbatim>\<open>isTaskActive\<close> on
  that name is false afterwards and the name is not in \<^verbatim>\<open>getActiveTasks()\<close>.
\<close>
theorem disabled_never_activated:
  assumes "registry_ok s" and "start lib batch s = (r, s')"
    and "d \<in> set batch" and "\<not> enabled d"
  shows "\<exists>nt ng. tasks s' = tasks s @ nt \<and> engine s' = engine s @ ng \<and>
           length ng = length nt \<and>
           (\<forall>e \<in> set nt. enabled (schedule (snd e)) \<and> schedule (snd e) \<noteq> d) \<and>
           (\<forall>g \<in> set ng. enabled (callback g) \<and> callback g \<noteq> d) \<and>
           ((\<forall>x \<in> set batch. enabled x \<longrightarrow> name x \<noteq> name d) \<and> \<not> isTaskActive s (name d) \<longrightarrow>
              \<not> isTaskActive s' (name d) \<and> name d \<notin> fst ` set (getActiveTasks s'))"
proof -
  from start_general[OF assms(2)] obtain ds where ds:
    "set ds \<subseteq> set (filter enabled batch)"
    "tasks s' = tasks s @ entries_of (length (engine s)) ds"
    "engine s' = engine s @ triggers_of (TZ s) ds" by blast
  have ok': "registry_ok s'" by (rule registry_ok_start[OF assms(1,2)])
  show ?thesis
  proof (intro exI[of _ "entries_of (length (engine s)) ds"] exI[of _ "triggers_of (TZ s) ds"]
      conjI impI)
    show "tasks s' = tasks s @ entries_of (length (engine s)) ds" by (rule ds(2))
    show "engine s' = engine s @ triggers_of (TZ s) ds" by (rule ds(3))
    show "length (triggers_of (TZ s) ds) = length (entries_of (length (engine s)) ds)"
      by (simp add: triggers_of_def)
    show "\<forall>e \<in> set (entries_of (length (engine s)) ds).
        enabled (schedule (snd e)) \<and> schedule (snd e) \<noteq> d"
    proof
      fix e assume "e \<in> set (entries_of (length (engine s)) ds)"
      from set_entries_of[OF this] have "schedule (snd e) \<in> set ds" by simp
      with ds(1) assms(4) show "enabled (schedule (snd e)) \<and> schedule (snd e) \<noteq> d" by auto
    qed
    show "\<forall>g \<in> set (triggers_of (TZ s) ds). enabled (callback g) \<and> callback g \<noteq> d"
      using ds(1) assms(4) by (auto simp add: triggers_of_def)
  next
    assume h: "(\<forall>x \<in> set batch. enabled x \<longrightarrow> name x \<noteq> name d) \<and> \<not> isTaskActive s (name d)"
    have "\<forall>x \<in> set ds. name x \<noteq> name d" using h ds(1) by auto
    then have "name d \<notin> set (map name ds)" by (auto simp add: image_iff)
    moreover have "set (map fst (tasks s')) = fst ` set (tasks s) \<union> set (map name ds)"
      unfolding ds(2) by simp
    ultimately have "name d \<notin> fst ` set (tasks s')"
      using h by (simp add: isTaskActive_def Map_has_iff)
    then show "\<not> isTaskActive s' (name d)" by (simp add: isTaskActive_def Map_has_iff)
    have "map fst (getActiveTasks s') = map fst (tasks s')"
      using ok' by (simp add: getActiveTasks_def registry_ok_def)
    then have "fst ` set (getActiveTasks s') = fst ` set (tasks s')"
      by (metis set_map)
    with \<open>name d \<notin> fst ` set (tasks s')\<close>
    show "name d \<notin> fst ` set (getActiveTasks s')" by simp
  qed
qed

lemma two_running_eq:
  "tasks two_running =
     [(''job-a'', \<lparr>schedule = job_a, task = 0\<rparr>), (''job-b'', \<lparr>schedule = job_b, task = 1\<rparr>)]"
  "map running (engine two_running) = [True, True]"
  "map callback (engine two_running) = [job_a, job_b]"
  by (simp_all add: two_running_def start_def scheduleTask_def Map_has_def Map_set_def
      new_Scheduler_def logger_def example_cron_def timezone_option_def job_a_def job_b_def job_off_def Let_def)

lemma registry_ok_two_running: "registry_ok two_running"
  unfolding two_running_def
  by (rule registry_ok_start[OF registry_ok_new, of example_cron _ _
        "fst (start example_cron [job_a, job_off, job_b] (new_Scheduler None))"]) simp

text \<open>
  C6 at the scheduler with job-a and job-b running: stopping job-a, stopping a name that is
  not registered, and stopping everything.
\<close>
theorem stop_semantics_witness:
  "registry_ok two_running \<and>
   Map_get (tasks two_running) ''job-a'' = Some \<lparr>schedule = job_a, task = 0\<rparr> \<and>
   \<not> isTaskActive (snd (stop (Some ''job-a'') two_running)) ''job-a'' \<and>
   \<not> running (engine (snd (stop (Some ''job-a'') two_running)) ! 0) \<and>
   Map_get (tasks (snd (stop (Some ''job-a'') two_running))) ''job-b''
     = Some \<lparr>schedule = job_b, task = 1\<rparr> \<and>
   engine (snd (stop (Some ''job-a'') two_running)) ! 1 = engine two_running ! 1 \<and>
   Map_get (tasks two_running) ''job-off'' = None \<and>
   tasks (snd (stop (Some ''job-off'') two_running)) = tasks two_running \<and>
   getActiveTasks (snd (stop None two_running)) = []"
proof -
  have a: "Map_get (tasks two_running) ''job-a'' = Some \<lparr>schedule = job_a, task = 0\<rparr>"
    and n: "Map_get (tasks two_running) ''job-off'' = None"
    by (simp_all add: two_running_eq Map_get_def)
  have b: "(''job-b'', \<lparr>schedule = job_b, task = 1\<rparr>) \<in> set (tasks two_running)"
    by (simp add: two_running_eq)
  from stop_semantics[OF registry_ok_two_running, of "''job-a''"] a b
  have "\<not> isTaskActive (snd (stop (Some ''job-a'') two_running)) ''job-a'' \<and>
   \<not> running (engine (snd (stop (Some ''job-a'') two_running)) ! 0) \<and>
   Map_get (tasks (snd (stop (Some ''job-a'') two_running))) ''job-b''
     = Some \<lparr>schedule = job_b, task = 1\<rparr> \<and>
   engine (snd (stop (Some ''job-a'') two_running)) ! 1 = engine two_running ! 1"
    by fastforce
  moreover from stop_semantics[OF registry_ok_two_running, of "''job-off''"] n
  have "tasks (snd (stop (Some ''job-off'') two_running)) = tasks two_running \<and>
   getActiveTasks (snd (stop None two_running)) = []"
    by simp
  ultimately show ?thesis using a n registry_ok_two_running by simp
qed

text \<open>
  C8 at the batch job-a, job-off, job-b started on a new scheduler.
\<close>
theorem disabled_never_activated_witness:
  "registry_ok (new_Scheduler None) \<and> job_off \<in> set [job_a, job_off, job_b] \<and> \<not> enabled job_off \<and>
   name job_a \<noteq> name job_off \<and> name job_b \<noteq> name job_off \<and>
   \<not> isTaskActive (new_Scheduler None) (name job_off) \<and>
   \<not> isTaskActive two_running (name job_off) \<and>
   name job_off \<notin> fst ` set (getActiveTasks two_running)"
proof -
  have h: "job_off \<in> set [job_a, job_off, job_b]" "\<not> enabled job_off"
    "\<forall>x \<in> set [job_a, job_off, job_b]. enabled x \<longrightarrow> name x \<noteq> name job_off"
    "\<not> isTaskActive (new_Scheduler None) (name job_off)"
    by (simp_all add: job_a_def job_b_def job_off_def isTaskActive_def Map_has_def new_Scheduler_def)
  have st: "start example_cron [job_a, job_off, job_b] (new_Scheduler None) =
      (fst (start example_cron [job_a, job_off, job_b] (new_Scheduler None)), two_running)"
    by (simp add: two_running_def)
  from disabled_never_activated[OF registry_ok_new st h(1,2)] h
  have "\<not> isTaskActive two_running (name job_off) \<and>
      name job_off \<notin> fst ` set (getActiveTasks two_running)" by blast
  moreover have "name job_a \<noteq> name job_off \<and> name job_b \<noteq> name job_off"
    by (simp add: job_a_def job_b_def job_off_def)
  ultimately show ?thesis using h registry_ok_new by simp
qed

lemma no_offender_prefix:
  assumes "\<forall>j < length pre. \<not> offends lib s (take j pre) (pre ! j)"
  shows "(\<forall>x \<in> set (filter enabled pre). cron_validate lib (cron x)) \<and>
         distinct (map name (filter enabled pre)) \<and>
         (\<forall>x \<in> set (filter enabled pre). \<not> Map_has (tasks s) (name x))"
  using assms
proof (induction pre rule: rev_induct)
  case Nil
  then show ?case by simp
next
  case (snoc x xs)
  have "\<forall>j < length xs. \<not> offends lib s (take j xs) (xs ! j)"
  proof (intro allI impI)
    fix j assume j: "j < length xs"
    with snoc.prems have "\<not> offends lib s (take j (xs @ [x])) ((xs @ [x]) ! j)" by simp
    with j show "\<not> offends lib s (take j xs) (xs ! j)" by (simp add: nth_append)
  qed
  from snoc.IH[OF this] have ih:
    "\<forall>x \<in> set (filter enabled xs). cron_validate lib (cron x)"
    "distinct (map name (filter enabled xs))"
    "\<forall>x \<in> set (filter enabled xs). \<not> Map_has (tasks s) (name x)" by simp_all
  have "length xs < length (xs @ [x])" by simp
  with snoc.prems have
    "\<not> offends lib s (take (length xs) (xs @ [x])) ((xs @ [x]) ! length xs)"
    by blast
  then have last: "\<not> offends lib s xs x" by simp
  show ?case
  proof (cases "enabled x")
    case False
    with ih show ?thesis by simp
  next
    case True
    with last have "cron_validate lib (cron x)" "\<not> Map_has (tasks s) (name x)"
      "name x \<notin> set (map name (filter enabled xs))"
      by (simp_all add: offends_def isTaskActive_def)
    with ih True show ?thesis by simp
  qed
qed

lemma first_offender:
  assumes "\<exists>i < length batch. offends lib s (take i batch) (batch ! i)"
  shows "\<exists>pre d post. batch = pre @ d # post \<and> offends lib s pre d \<and>
           (\<forall>j < length pre. \<not> offends lib s (take j pre) (pre ! j))"
proof -
  define P where "P i \<longleftrightarrow> i < length batch \<and> offends lib s (take i batch) (batch ! i)" for i
  define i where "i = (LEAST i. P i)"
  from assms have "\<exists>i. P i" by (auto simp add: P_def)
  then have Pi: "P i" unfolding i_def by (rule LeastI_ex)
  have min: "\<And>j. j < i \<Longrightarrow> \<not> P j" unfolding i_def by (rule not_less_Least)
  from Pi have il: "i < length batch" by (simp add: P_def)
  have split: "batch = take i batch @ batch ! i # drop (Suc i) batch"
    using il by (rule id_take_nth_drop)
  have "\<forall>j < length (take i batch).
          \<not> offends lib s (take j (take i batch)) (take i batch ! j)"
  proof (intro allI impI)
    fix j assume "j < length (take i batch)"
    then have j: "j < i" by simp
    with min il have "\<not> offends lib s (take j batch) (batch ! j)" by (simp add: P_def)
    with j show "\<not> offends lib s (take j (take i batch)) (take i batch ! j)"
      by (simp add: min_def)
  qed
  with split Pi show ?thesis unfolding P_def by blast
qed

text \<open>
  Claim C2, amended. Let the time zone handed to the trigger engine (\<^verbatim>\<open>TZ\<close>, or UTC when
  it is unset) be one the engine accepts. If any definition of the batch offends (it is
  enabled and its cadence is invalid, or its name is registered already or is that of an
  enabled definition earlier in the batch), \<^verbatim>\<open>start\<close> throws a SchedulerError at the
  first offending definition \<open>d\<close>: neither \<open>d\<close> nor any definition after it is registered
  or given a trigger, and the enabled definitions before it stay registered with their
  triggers. Nothing is rolled back.
\<close>
theorem start_fails_without_rollback:
  assumes "\<exists>i < length batch. offends lib s (take i batch) (batch ! i)"
    and "cron_accepts_zone lib (timezone_option (TZ s))"
  shows "\<exists>pre d post m s'.
           batch = pre @ d # post \<and> offends lib s pre d \<and>
           (\<forall>j < length pre. \<not> offends lib s (take j pre) (pre ! j)) \<and>
           start lib batch s = (Inl (Thrown SchedulerError m), s') \<and>
           tasks s' = tasks s @ entries_of (length (engine s)) (filter enabled pre) \<and>
           engine s' = engine s @ triggers_of (TZ s) (filter enabled pre)"
proof -
  from first_offender[OF assms(1)] obtain pre d post where pdp:
    "batch = pre @ d # post" "offends lib s pre d"
    "\<forall>j < length pre. \<not> offends lib s (take j pre) (pre ! j)" by blast
  let ?s0 = "logger LevelInfo ''Starting scheduler''
                [(''schedulesCount'', MNum (int (length batch)))] s"
  from no_offender_prefix[OF pdp(3)] have good:
    "\<forall>x \<in> set (filter enabled pre). cron_validate lib (cron x)"
    "distinct (map name (filter enabled pre))"
    "\<forall>x \<in> set (filter enabled pre). \<not> Map_has (tasks ?s0) (name x)" by simp_all
  have zone: "cron_accepts_zone lib (timezone_option (TZ ?s0))" using assms(2) by simp
  from start_loop_good[OF good zone, of "d # post"] obtain s1 where s1:
    "start_loop lib (pre @ d # post) ?s0 = start_loop lib (d # post) s1"
    "tasks s1 = tasks s @ entries_of (length (engine s)) (filter enabled pre)"
    "engine s1 = engine s @ triggers_of (TZ s) (filter enabled pre)"
    by auto
  have "set (map fst (tasks s1)) = fst ` set (tasks s) \<union> set (map name (filter enabled pre))"
    unfolding s1(2) by simp
  then have "Map_has (tasks s1) (name d) \<longleftrightarrow>
      isTaskActive s (name d) \<or> name d \<in> set (map name (filter enabled pre))"
    by (simp add: isTaskActive_def Map_has_iff)
  then have "Map_has (tasks s1) (name d) \<or> \<not> cron_validate lib (cron d)"
    using pdp(2) unfolding offends_def by blast
  from scheduleTask_fail[of s1 d lib, OF this] obtain m where
    "scheduleTask lib d s1 = (Inl (Thrown SchedulerError m), s1)" by blast
  moreover have "enabled d" using pdp(2) by (simp add: offends_def)
  ultimately have "start lib batch s = (Inl (Thrown SchedulerError m), s1)"
    using s1(1) pdp(1) by (simp add: start_def)
  with pdp s1 show ?thesis by blast
qed

text \<open>
  C2, amended, at the batch job-a, job-bad, job-b on a new scheduler: job-bad offends.
\<close>
theorem start_fails_without_rollback_witness:
  "offends example_cron (new_Scheduler None) (take 1 [job_a, job_bad, job_b])
     ([job_a, job_bad, job_b] ! 1) \<and>
   cron_accepts_zone example_cron (timezone_option (TZ (new_Scheduler None))) \<and>
   (\<exists>pre d post m s'.
      [job_a, job_bad, job_b] = pre @ d # post \<and>
      offends example_cron (new_Scheduler None) pre d \<and>
      (\<forall>j < length pre. \<not> offends example_cron (new_Scheduler None) (take j pre) (pre ! j)) \<and>
      start example_cron [job_a, job_bad, job_b] (new_Scheduler None)
        = (Inl (Thrown SchedulerError m), s') \<and>
      tasks s' = tasks (new_Scheduler None)
        @ entries_of (length (engine (new_Scheduler None))) (filter enabled pre) \<and>
      engine s' = engine (new_Scheduler None)
        @ triggers_of (TZ (new_Scheduler None)) (filter enabled pre))"
proof -
  have h: "offends example_cron (new_Scheduler None) (take 1 [job_a, job_bad, job_b])
     ([job_a, job_bad, job_b] ! 1)"
    by (simp add: offends_def job_bad_def example_cron_def)
  then have "\<exists>i < length [job_a, job_bad, job_b].
      offends example_cron (new_Scheduler None) (take i [job_a, job_bad, job_b])
        ([job_a, job_bad, job_b] ! i)"
    by (intro exI[of _ 1]) simp
  moreover have z: "cron_accepts_zone example_cron (timezone_option (TZ (new_Scheduler None)))"
    by (simp add: example_cron_def timezone_option_def new_Scheduler_def)
  ultimately show ?thesis using start_fails_without_rollback h by blast
qed

text \<open>
  Claim C2 as stated fails: started with job-a, job-bad, job-b, \<^verbatim>\<open>start\<close> throws and
  leaves job-a registered, with one running trigger.
\<close>
theorem start_partial_counterexample:
  "isl (fst (start example_cron [job_a, job_bad, job_b] (new_Scheduler None))) \<and>
   isTaskActive (snd (start example_cron [job_a, job_bad, job_b] (new_Scheduler None))) ''job-a'' \<and>
   map running (engine (snd (start example_cron [job_a, job_bad, job_b] (new_Scheduler None))))
     = [True]"
  by (simp add: start_def scheduleTask_def Map_has_def Map_set_def isTaskActive_def
      new_Scheduler_def logger_def example_cron_def timezone_option_def job_a_def job_b_def
      job_bad_def Let_def)

text \<open>
  With a time zone the engine rejects, \<^verbatim>\<open>cron.schedule\<close> throws at the first enabled
  definition that passes both checks, and nothing is registered.
\<close>

lemma start_unknown_zone:
  "start example_cron [job_a, job_bad, job_b] (new_Scheduler (Some ''Not/AZone'')) =
     (Inl (Thrown RangeError ''Invalid time zone specified: Not/AZone''),
      logger LevelInfo ''Starting scheduler'' [(''schedulesCount'', MNum 3)]
        (new_Scheduler (Some ''Not/AZone'')))"
  by (simp add: start_def scheduleTask_def Map_has_def timezone_option_def
      new_Scheduler_def logger_def example_cron_def job_a_def)

subsection \<open>One firing\<close>

lemma invoke_fields [simp]:
  "tasks (invoke c s) = tasks s"
  "engine (invoke c s) = engine s"
  "logs (invoke c s) = logs s"
  "TZ (invoke c s) = TZ s"
  "calls (invoke c s) = calls s @ [c]"
  by (simp_all add: invoke_def)

lemma log_fields [simp]:
  "tasks (log_completed sch d s) = tasks s" "engine (log_completed sch d s) = engine s"
  "calls (log_completed sch d s) = calls s"
  "tasks (log_failed sch e d s) = tasks s" "engine (log_failed sch e d s) = engine s"
  "calls (log_failed sch e d s) = calls s"
  "tasks (log_output_saved n p c s) = tasks s" "engine (log_output_saved n p c s) = engine s"
  "calls (log_output_saved n p c s) = calls s"
  by (simp_all add: log_completed_def log_failed_def log_output_saved_def)

lemma saveOutput_catch_fields [simp]:
  "tasks (snd (saveOutput_catch n p e s)) = tasks s"
  "engine (snd (saveOutput_catch n p e s)) = engine s"
  "calls (snd (saveOutput_catch n p e s)) = calls s"
  by (simp_all add: saveOutput_catch_def)

lemma saveOutput_frame:
  "tasks (snd (saveOutput env n p c s)) = tasks s \<and> engine (snd (saveOutput env n p c s)) = engine s"
  by (simp add: saveOutput_def saveOutput_try_def saveOutput_catch_def Let_def
      split: sum.splits prod.splits)

lemma saveOutput_calls:
  "calls (snd (saveOutput env n p c s)) = calls s @
     (let fullPath = path_resolve env (saveOutput_filename p n (iso_timestamp env) (iso_date env))
      in Mkdir (path_dirname env fullPath) #
         (case mkdir_outcome env of Inl e \<Rightarrow> [] | Inr u \<Rightarrow> [WriteFile fullPath c]))"
  by (simp add: saveOutput_def saveOutput_try_def saveOutput_catch_def Let_def
      split: sum.splits prod.splits)

lemma saveOutput_frame_dest:
  "saveOutput env n p c s = (r, s') \<Longrightarrow> tasks s' = tasks s \<and> engine s' = engine s"
  using saveOutput_frame[of env n p c s] by simp

lemma executeSchedule_try_frame:
  "executeSchedule_try env sch s = (r, s') \<Longrightarrow> tasks s' = tasks s \<and> engine s' = engine s"
  by (auto simp add: executeSchedule_try_def Let_def
      split: sum.splits prod.splits option.splits if_splits dest!: saveOutput_frame_dest)

lemma executeSchedule_frame:
  "fst (executeSchedule env sch s) = Inr () \<and>
   tasks (snd (executeSchedule env sch s)) = tasks s \<and>
   engine (snd (executeSchedule env sch s)) = engine s"
proof -
  let ?s0 = "logger LevelInfo ''Executing scheduled task'' [(''name'', MStr (name sch))] s"
  obtain r s1 where e: "executeSchedule_try env sch ?s0 = (r, s1)"
    by (cases "executeSchedule_try env sch ?s0")
  from executeSchedule_try_frame[OF e] have "tasks s1 = tasks s \<and> engine s1 = engine s" by simp
  then show ?thesis by (cases r) (simp_all add: executeSchedule_def e)
qed

lemma executeSchedule_begin_frame:
  "tasks (snd (executeSchedule_begin env sch s)) = tasks s \<and>
   engine (snd (executeSchedule_begin env sch s)) = engine s"
  by (simp add: executeSchedule_begin_def Let_def)

lemma executeSchedule_resume_frame:
  "tasks (snd (executeSchedule_resume env ex s)) = tasks s \<and>
   engine (snd (executeSchedule_resume env ex s)) = engine s"
  by (simp add: executeSchedule_resume_def Let_def saveOutput_catch_def
      split: awaiting.splits sum.splits option.splits prod.splits)

lemma step_Fire_frame:
  "tasks (sched (step (Fire h env) r)) = tasks (sched r) \<and>
   engine (sched (step (Fire h env) r)) = engine (sched r)"
  using executeSchedule_begin_frame[of env "callback (engine (sched r) ! h)" "sched r"]
  by (cases "executeSchedule_begin env (callback (engine (sched r) ! h)) (sched r)") simp

lemma step_Settle_frame:
  "tasks (sched (step (Settle i env) r)) = tasks (sched r) \<and>
   engine (sched (step (Settle i env) r)) = engine (sched r)"
proof -
  obtain exo s' where e: "executeSchedule_resume env (in_flight r ! i) (sched r) = (exo, s')"
    by (cases "executeSchedule_resume env (in_flight r ! i) (sched r)")
  with executeSchedule_resume_frame[of env "in_flight r ! i" "sched r"]
  show ?thesis by (cases exo) simp_all
qed

text \<open>
  Claim C3. However the readiness check answers and however the calls to connect, to the
  prompt executor and to the file system settle, the promise of \<^verbatim>\<open>executeSchedule\<close>
  resolves: nothing is thrown past the trigger callback. A firing, and each of its steps
  between two \<^verbatim>\<open>await\<close>s, leaves the registry and the engine's triggers as they were, so
  that \<^verbatim>\<open>isTaskActive\<close> answers as before for every name and every trigger keeps
  firing.
\<close>
theorem executeSchedule_contains_errors:
  "fst (executeSchedule env sch s) = Inr () \<and>
   tasks (snd (executeSchedule env sch s)) = tasks s \<and>
   engine (snd (executeSchedule env sch s)) = engine s \<and>
   isTaskActive (snd (executeSchedule env sch s)) n = isTaskActive s n \<and>
   tasks (sched (step (Fire h env) r)) = tasks (sched r) \<and>
   engine (sched (step (Fire h env) r)) = engine (sched r) \<and>
   tasks (sched (step (Settle i env) r)) = tasks (sched r) \<and>
   engine (sched (step (Settle i env) r)) = engine (sched r)"
  using executeSchedule_frame[of env sch s] step_Fire_frame[of h env r]
    step_Settle_frame[of i env r]
  by (simp add: isTaskActive_def)

lemma executeSchedule_uninterrupted_eq:
  "executeSchedule_uninterrupted env sch s = (None, snd (executeSchedule env sch s))"
  by (simp add: executeSchedule_uninterrupted_def executeSchedule_begin_def
      executeSchedule_resume_def executeSchedule_def executeSchedule_try_def
      saveOutput_def saveOutput_try_def saveOutput_catch_def Let_def eval_nat_numeral
      split: sum.splits option.splits)

lemma executeSchedule_calls:
  "calls (snd (executeSchedule env sch s)) = calls s @
     (if ready env then IsReady # ExecutePrompt (prompt sch) # persistence_calls env sch
      else (case connect_outcome env of
              Inl e \<Rightarrow> [IsReady, Connect]
            | Inr u \<Rightarrow> IsReady # Connect # ExecutePrompt (prompt sch) # persistence_calls env sch))"
  by (simp add: executeSchedule_def executeSchedule_try_def persistence_calls_def
      saveOutput_def saveOutput_try_def saveOutput_catch_def Let_def
      split: sum.splits option.splits)

text \<open>
  Claim C4. The calls of a firing, in order: the readiness check; then, only when the
  connection is not ready, connect; then the prompt executor, which is called only when the
  connection was ready or connect has resolved. When connect rejects, the firing makes no
  further call: the executor is not invoked and connect is not retried. The routine is
  suspended at the \<^verbatim>\<open>await\<close> of connect, and the executor is called when it resumes
  with connect resolved.
\<close>
theorem readiness_before_executor:
  "calls (snd (executeSchedule env sch s)) = calls s @
     (if ready env then IsReady # ExecutePrompt (prompt sch) # persistence_calls env sch
      else (case connect_outcome env of
              Inl e \<Rightarrow> [IsReady, Connect]
            | Inr u \<Rightarrow> IsReady # Connect # ExecutePrompt (prompt sch) # persistence_calls env sch)) \<and>
   Connect \<notin> set (persistence_calls env sch) \<and>
   ExecutePrompt p \<notin> set (persistence_calls env sch) \<and>
   (\<not> ready env \<longrightarrow>
      ex_awaiting (fst (executeSchedule_begin env sch s)) = AwaitConnect \<and>
      calls (snd (executeSchedule_begin env sch s)) = calls s @ [IsReady, Connect]) \<and>
   (ex_awaiting ex = AwaitConnect \<longrightarrow>
      calls (snd (executeSchedule_resume env' ex s)) = calls s @
        (case connect_outcome env' of
           Inl e \<Rightarrow> []
         | Inr u \<Rightarrow> [ExecutePrompt (prompt (ex_schedule ex))]) \<and>
      (isl (connect_outcome env') \<longrightarrow> fst (executeSchedule_resume env' ex s) = None))"
proof (intro conjI impI)
  show "calls (snd (executeSchedule env sch s)) = calls s @
     (if ready env then IsReady # ExecutePrompt (prompt sch) # persistence_calls env sch
      else (case connect_outcome env of
              Inl e \<Rightarrow> [IsReady, Connect]
            | Inr u \<Rightarrow> IsReady # Connect # ExecutePrompt (prompt sch) # persistence_calls env sch))"
    by (rule executeSchedule_calls)
  show "Connect \<notin> set (persistence_calls env sch)"
    by (simp add: persistence_calls_def Let_def split: sum.splits option.splits)
  show "ExecutePrompt p \<notin> set (persistence_calls env sch)"
    by (simp add: persistence_calls_def Let_def split: sum.splits option.splits)
next
  assume "\<not> ready env"
  then show "ex_awaiting (fst (executeSchedule_begin env sch s)) = AwaitConnect"
    and "calls (snd (executeSchedule_begin env sch s)) = calls s @ [IsReady, Connect]"
    by (simp_all add: executeSchedule_begin_def Let_def)
next
  assume a: "ex_awaiting ex = AwaitConnect"
  then show "calls (snd (executeSchedule_resume env' ex s)) = calls s @
        (case connect_outcome env' of
           Inl e \<Rightarrow> []
         | Inr u \<Rightarrow> [ExecutePrompt (prompt (ex_schedule ex))])"
    by (simp add: executeSchedule_resume_def Let_def split: sum.splits)
  assume "isl (connect_outcome env')"
  with a show "fst (executeSchedule_resume env' ex s) = None"
    by (auto simp add: executeSchedule_resume_def Let_def isl_def)
qed

text \<open>
  C4 at a firing of job-a with the connection not ready and connect failing, and at one
  with the connection ready.
\<close>
theorem readiness_before_executor_witness:
  "\<not> ready env_connect_fails \<and> isl (connect_outcome env_connect_fails) \<and>
   calls (snd (executeSchedule env_connect_fails job_a (new_Scheduler None))) = [IsReady, Connect] \<and>
   ready env_ok \<and>
   calls (snd (executeSchedule env_ok job_a (new_Scheduler None)))
     = [IsReady, ExecutePrompt ''List the files''] \<and>
   ex_awaiting (fst (executeSchedule_begin env_connect_fails job_a (new_Scheduler None)))
     = AwaitConnect \<and>
   fst (executeSchedule_resume env_connect_fails
          (fst (executeSchedule_begin env_connect_fails job_a (new_Scheduler None)))
          (new_Scheduler None)) = None"
proof -
  have f: "\<not> ready env_connect_fails"
    "connect_outcome env_connect_fails = Inl (Thrown MCPError ''Failed to connect to MCP server'')"
    by (simp_all add: env_connect_fails_def env_ok_def)
  have k: "ready env_ok" "persistence_calls env_ok job_a = []" "prompt job_a = ''List the files''"
    by (simp_all add: env_ok_def job_a_def persistence_calls_def)
  have c: "calls (new_Scheduler None) = []" by (simp add: new_Scheduler_def)
  let ?ex = "fst (executeSchedule_begin env_connect_fails job_a (new_Scheduler None))"
  from readiness_before_executor[of env_connect_fails job_a "new_Scheduler None" "[]" ?ex
      env_connect_fails] f c
  have "calls (snd (executeSchedule env_connect_fails job_a (new_Scheduler None)))
          = [IsReady, Connect] \<and>
        ex_awaiting ?ex = AwaitConnect \<and>
        fst (executeSchedule_resume env_connect_fails ?ex (new_Scheduler None)) = None"
    by simp
  moreover from readiness_before_executor[of env_ok job_a "new_Scheduler None"] k c
  have "calls (snd (executeSchedule env_ok job_a (new_Scheduler None)))
     = [IsReady, ExecutePrompt ''List the files'']" by simp
  ultimately show ?thesis using f k by simp
qed

text \<open>
  C3 at a firing of job-a whose prompt executor fails, with job-a and job-b running.
\<close>
theorem executeSchedule_contains_errors_witness:
  "fst (executeSchedule env_executor_fails job_a two_running) = Inr () \<and>
   isTaskActive two_running ''job-a'' \<and>
   isTaskActive (snd (executeSchedule env_executor_fails job_a two_running)) ''job-a'' \<and>
   isTaskActive (snd (executeSchedule env_executor_fails job_a two_running)) ''job-b'' \<and>
   map running (engine (snd (executeSchedule env_executor_fails job_a two_running))) = [True, True]"
  using executeSchedule_contains_errors[of env_executor_fails job_a two_running "''job-a''"]
    executeSchedule_contains_errors[of env_executor_fails job_a two_running "''job-b''"]
  by (simp add: two_running_eq isTaskActive_def Map_has_def)

text \<open>
  Claim C5, amended. When the prompt execution succeeds, the job has an output path and
  creating the directory or writing the file fails, \<^verbatim>\<open>saveOutput\<close> logs "Failed to save
  output" and throws a SchedulerError; \<^verbatim>\<open>executeSchedule\<close> catches it and logs "Failed
  to execute scheduled task" with the error "Failed to save output: ..." and the duration.
  "Scheduled task completed" is not logged. The routine does not throw and the registry is
  unchanged.
\<close>
theorem persistence_failure_fails_the_firing:
  assumes "ready env \<or> connect_outcome env = Inr ()"
    and "executePrompt_outcome env = Inr result"
    and "outputPath sch = Some p"
    and "mkdir_outcome env = Inl e \<or> (mkdir_outcome env = Inr () \<and> writeFile_outcome env = Inl e)"
  shows "fst (executeSchedule env sch s) = Inr () \<and>
         tasks (snd (executeSchedule env sch s)) = tasks s \<and>
         logs (snd (executeSchedule env sch s)) = logs s @
           [(LevelInfo, ''Executing scheduled task'', [(''name'', MStr (name sch))])] @
           (if ready env then []
            else [(LevelWarn, ''MCP client not ready, attempting to reconnect'', [])]) @
           [(LevelError, ''Failed to save output'',
               [(''schedule'', MStr (name sch)), (''path'', MStr p), (''error'', MStr (message e))]),
            (LevelError, ''Failed to execute scheduled task'',
               [(''name'', MStr (name sch)),
                (''error'', MStr (''Failed to save output: '' @ message e)),
                (''duration'', MNum (now_end env - now_start env))])]"
proof -
  have "logs (snd (executeSchedule env sch s)) = logs s @
           [(LevelInfo, ''Executing scheduled task'', [(''name'', MStr (name sch))])] @
           (if ready env then []
            else [(LevelWarn, ''MCP client not ready, attempting to reconnect'', [])]) @
           [(LevelError, ''Failed to save output'',
               [(''schedule'', MStr (name sch)), (''path'', MStr p), (''error'', MStr (message e))]),
            (LevelError, ''Failed to execute scheduled task'',
               [(''name'', MStr (name sch)),
                (''error'', MStr (''Failed to save output: '' @ message e)),
                (''duration'', MNum (now_end env - now_start env))])]"
    using assms
    by (auto simp add: executeSchedule_def executeSchedule_try_def saveOutput_def
        saveOutput_try_def saveOutput_catch_def log_failed_def Let_def)
  with executeSchedule_frame[of env sch s] show ?thesis by simp
qed

text \<open>
  C5, amended, at a firing of job-b whose write fails with EACCES.
\<close>
theorem persistence_failure_fails_the_firing_witness:
  "ready env_write_fails \<and> executePrompt_outcome env_write_fails = Inr ''Two files'' \<and>
   outputPath job_b = Some ''outputs/{name}-{date}.txt'' \<and>
   mkdir_outcome env_write_fails = Inr () \<and>
   writeFile_outcome env_write_fails = Inl (Thrown PlainError ''EACCES'') \<and>
   fst (executeSchedule env_write_fails job_b (new_Scheduler None)) = Inr () \<and>
   logs (snd (executeSchedule env_write_fails job_b (new_Scheduler None))) =
     [(LevelInfo, ''Executing scheduled task'', [(''name'', MStr ''job-b'')]),
      (LevelError, ''Failed to save output'',
         [(''schedule'', MStr ''job-b''), (''path'', MStr ''outputs/{name}-{date}.txt''),
          (''error'', MStr ''EACCES'')]),
      (LevelError, ''Failed to execute scheduled task'',
         [(''name'', MStr ''job-b''), (''error'', MStr ''Failed to save output: EACCES''),
          (''duration'', MNum 3000)])]"
proof -
  have h: "ready env_write_fails \<or> connect_outcome env_write_fails = Inr ()"
    "executePrompt_outcome env_write_fails = Inr ''Two files''"
    "outputPath job_b = Some ''outputs/{name}-{date}.txt''"
    "mkdir_outcome env_write_fails = Inl (Thrown PlainError ''EACCES'') \<or>
      (mkdir_outcome env_write_fails = Inr () \<and>
       writeFile_outcome env_write_fails = Inl (Thrown PlainError ''EACCES''))"
    by (simp_all add: env_write_fails_def env_ok_def job_b_def)
  from persistence_failure_fails_the_firing[OF h, of "new_Scheduler None"]
  show ?thesis
    by (simp add: env_write_fails_def env_ok_def job_b_def new_Scheduler_def)
qed

text \<open>
  Claim C5 as stated fails: at a firing of job-b whose write fails, the log holds the
  entries below and no "Scheduled task completed".
\<close>
theorem persistence_failure_counterexample:
  "map (\<lambda>en. fst (snd en)) (logs (snd (executeSchedule env_write_fails job_b (new_Scheduler None))))
     = [''Executing scheduled task'', ''Failed to save output'',
        ''Failed to execute scheduled task'']"
  by (simp add: executeSchedule_def executeSchedule_try_def saveOutput_def
      saveOutput_try_def saveOutput_catch_def log_failed_def Let_def logger_def invoke_def
      env_write_fails_def env_ok_def job_b_def new_Scheduler_def)

subsection \<open>Firings in flight\<close>

lemma registry_ok_step:
  assumes "registry_ok (sched r)"
  shows "registry_ok (sched (step ev r))"
proof (cases ev)
  case (Start lib schedules)
  then show ?thesis
    using registry_ok_start[OF assms, of lib schedules
        "fst (start lib schedules (sched r))" "snd (start lib schedules (sched r))"]
    by simp
next
  case (Stop scheduleName)
  then show ?thesis using registry_ok_stop[OF assms, of scheduleName] by simp
next
  case (Fire h env)
  then show ?thesis using assms step_Fire_frame[of h env r] by (simp add: registry_ok_def)
next
  case (Settle i env)
  then show ?thesis using assms step_Settle_frame[of i env r] by (simp add: registry_ok_def)
qed

lemma executeSchedule_begin_schedule [simp]:
  "ex_schedule (fst (executeSchedule_begin env sch s)) = sch"
  by (simp add: executeSchedule_begin_def Let_def)

text \<open>
  Claim C1, amended. A firing of the trigger of a registered job begins an execution of the
  job at once, whatever is in flight: the number of executions in flight for the job's name
  grows by one, and the number for every other name is unchanged. Nothing in the scheduler
  holds a firing back until an earlier one has ended.
\<close>
theorem firing_always_begins:
  assumes "registry_ok (sched r)" and "Map_get (tasks (sched r)) n = Some t"
  shows "in_flight_count (step (Fire (task t) env) r) n = Suc (in_flight_count r n) \<and>
         length (in_flight (step (Fire (task t) env) r)) = Suc (length (in_flight r)) \<and>
         (\<forall>m. m \<noteq> n \<longrightarrow> in_flight_count (step (Fire (task t) env) r) m = in_flight_count r m)"
proof -
  from assms(2) have mem: "(n, t) \<in> set (tasks (sched r))"
    by (simp add: Map_get_def map_of_SomeD)
  with assms(1) have t: "task t < length (engine (sched r))" "running (engine (sched r) ! task t)"
    "callback (engine (sched r) ! task t) = schedule t" "name (schedule t) = n"
    by (auto simp add: registry_ok_def)
  obtain ex s' where b: "executeSchedule_begin env (schedule t) (sched r) = (ex, s')"
    by (cases "executeSchedule_begin env (schedule t) (sched r)")
  then have "ex_schedule ex = schedule t"
    using executeSchedule_begin_schedule[of env "schedule t" "sched r"] by simp
  with t b show ?thesis by (simp add: in_flight_count_def)
qed

lemma one_in_flight_eq:
  "tasks (sched one_in_flight) =
     [(''job-a'', \<lparr>schedule = job_a, task = 0\<rparr>), (''job-b'', \<lparr>schedule = job_b, task = 1\<rparr>)]"
  "map ex_schedule (in_flight one_in_flight) = [job_a]"
  by (simp_all add: one_in_flight_def run_def new_runtime_def start_def scheduleTask_def
      Map_has_def Map_set_def new_Scheduler_def logger_def example_cron_def timezone_option_def
      job_a_def job_b_def Let_def executeSchedule_begin_def env_ok_def invoke_def)

lemma registry_ok_one_in_flight: "registry_ok (sched one_in_flight)"
proof -
  have "registry_ok (sched (new_runtime None))" by (simp add: new_runtime_def registry_ok_new)
  then have "registry_ok (sched (step (Fire 0 env_ok)
      (step (Start example_cron [job_a, job_b]) (new_runtime None))))"
    by (intro registry_ok_step)
  then show ?thesis by (simp add: one_in_flight_def run_def)
qed

text \<open>
  C1, amended, at the system with one execution of job-a in flight: the next firing of
  job-a's trigger makes it two.
\<close>
theorem firing_always_begins_witness:
  "registry_ok (sched one_in_flight) \<and>
   Map_get (tasks (sched one_in_flight)) ''job-a'' = Some \<lparr>schedule = job_a, task = 0\<rparr> \<and>
   in_flight_count one_in_flight ''job-a'' = 1 \<and>
   in_flight_count (step (Fire 0 env_later) one_in_flight) ''job-a'' = 2 \<and>
   in_flight_count (step (Fire 0 env_later) one_in_flight) ''job-b'' = 0"
proof -
  have g: "Map_get (tasks (sched one_in_flight)) ''job-a'' = Some \<lparr>schedule = job_a, task = 0\<rparr>"
    by (simp add: one_in_flight_eq Map_get_def)
  have c: "in_flight_count one_in_flight ''job-a'' = 1" "in_flight_count one_in_flight ''job-b'' = 0"
    using one_in_flight_eq(2)
    by (auto simp add: in_flight_count_def job_a_def map_eq_Cons_conv)
  from firing_always_begins[OF registry_ok_one_in_flight g, of env_later] c
  have "in_flight_count (step (Fire 0 env_later) one_in_flight) ''job-a'' = 2 \<and>
        in_flight_count (step (Fire 0 env_later) one_in_flight) ''job-b'' = 0"
    by simp
  with registry_ok_one_in_flight g c show ?thesis by simp
qed

text \<open>
  Claim C1 as stated fails: two firings of job-a's trigger, the first not yet ended when
  the second arrives, leave two executions of job-a in flight.
\<close>
theorem overlap_counterexample:
  "in_flight_count
     (run [Start example_cron [job_a, job_b], Fire 0 env_ok, Fire 0 env_later]
        (new_runtime None)) ''job-a'' = 2"
  by (simp add: run_def new_runtime_def start_def scheduleTask_def Map_has_def Map_set_def
      new_Scheduler_def logger_def example_cron_def timezone_option_def job_a_def job_b_def
      Let_def executeSchedule_begin_def env_ok_def env_later_def invoke_def in_flight_count_def)

subsection \<open>The tool connection\<close>

lemma mcp_logger_fields [simp]:
  "client (mcp_logger lv msg md c) = client c"
  "transport (mcp_logger lv msg md c) = transport c"
  "serverProcess (mcp_logger lv msg md c) = serverProcess c"
  "tools (mcp_logger lv msg md c) = tools c"
  "isConnected (mcp_logger lv msg md c) = isConnected c"
  "created (mcp_logger lv msg md c) = created c"
  "mcp_calls (mcp_logger lv msg md c) = mcp_calls c"
  "config (mcp_logger lv msg md c) = config c"
  by (simp_all add: mcp_logger_def)

lemma isReady_mcp_logger [simp]: "isReady (mcp_logger lv msg md c) = isReady c"
  by (simp add: isReady_def)

lemma fold_discover_one_isConnected [simp]:
  "isConnected (fold discover_one ts c) = isConnected c"
  by (induction ts arbitrary: c) (simp_all add: discover_one_def)

lemma discoverTools_isConnected:
  "discoverTools env c = (r, c') \<Longrightarrow> isConnected c' = isConnected c"
  by (auto simp add: discoverTools_def mcp_invoke_def Let_def
      split: if_splits sum.splits option.splits)

lemma connect_try_isConnected:
  "connect_try env c = (Inr u, c') \<Longrightarrow> isConnected c'"
  by (auto simp add: connect_try_def Let_def split: sum.splits prod.splits
      dest!: discoverTools_isConnected)

lemma connect_success_isConnected:
  assumes "fst (connect env c) = Inr ()"
  shows "isConnected (snd (connect env c))"
proof (cases "isConnected c")
  case True
  then show ?thesis by (simp add: connect_def)
next
  case False
  obtain r c' where t: "connect_try env c = (r, c')" by (cases "connect_try env c")
  with assms False have "r = Inr ()" by (cases r) (simp_all add: connect_def)
  with t connect_try_isConnected[of env c "()" c'] False show ?thesis
    by (simp add: connect_def)
qed

text \<open>
  Claim C9. After a \<^verbatim>\<open>connect\<close> that resolved, another \<^verbatim>\<open>connect\<close> resolves having only
  logged "MCP client already connected": it spawns no process, creates no transport and no
  client, makes no SDK call, and leaves the client, the transport, the server process, the
  tools and \<^verbatim>\<open>isReady()\<close> as they were.
\<close>
theorem connect_idempotent:
  assumes "fst (connect env c) = Inr ()"
  shows "connect env' (snd (connect env c)) =
           (Inr (), mcp_logger LevelDebug ''MCP client already connected'' [] (snd (connect env c))) \<and>
         mcp_calls (snd (connect env' (snd (connect env c)))) = mcp_calls (snd (connect env c)) \<and>
         created (snd (connect env' (snd (connect env c)))) = created (snd (connect env c)) \<and>
         client (snd (connect env' (snd (connect env c)))) = client (snd (connect env c)) \<and>
         transport (snd (connect env' (snd (connect env c)))) = transport (snd (connect env c)) \<and>
         serverProcess (snd (connect env' (snd (connect env c))))
           = serverProcess (snd (connect env c)) \<and>
         tools (snd (connect env' (snd (connect env c)))) = tools (snd (connect env c)) \<and>
         isConnected (snd (connect env' (snd (connect env c)))) \<and>
         isReady (snd (connect env' (snd (connect env c)))) = isReady (snd (connect env c))"
proof -
  from connect_success_isConnected[OF assms]
  have c: "isConnected (snd (connect env c))" .
  then have "connect env' (snd (connect env c)) =
      (Inr (), mcp_logger LevelDebug ''MCP client already connected'' [] (snd (connect env c)))"
    by (simp add: connect_def)
  with c show ?thesis by (simp add: isReady_def)
qed

lemma connected_once_eq:
  "fst (connect mcp_env_ok (new_MCPClient example_config)) = Inr ()"
  "mcp_calls connected_once =
     [Spawn ''npx'' [''@modelcontextprotocol/server-filesystem'', ''/data''],
      NewTransport, NewClient, ClientConnect, ListTools]"
  "map fst (tools connected_once) = [''read_file'', ''list_directory'']"
  "isReady connected_once"
  by (simp_all add: connected_once_def connect_def connect_try_def discoverTools_def
      discover_one_def Map_set_def Map_has_def mcp_invoke_def mcp_logger_def new_MCPClient_def
      mcp_env_ok_def example_config_def isReady_def Let_def)

text \<open>
  C9 at a new client whose first connect succeeds and discovers two tools.
\<close>
theorem connect_idempotent_witness:
  "fst (connect mcp_env_ok (new_MCPClient example_config)) = Inr () \<and>
   isReady connected_once \<and>
   fst (connect mcp_env_ok connected_once) = Inr () \<and>
   mcp_calls (snd (connect mcp_env_ok connected_once)) =
     [Spawn ''npx'' [''@modelcontextprotocol/server-filesystem'', ''/data''],
      NewTransport, NewClient, ClientConnect, ListTools] \<and>
   map fst (tools (snd (connect mcp_env_ok connected_once))) = [''read_file'', ''list_directory''] \<and>
   isReady (snd (connect mcp_env_ok connected_once))"
  using connect_idempotent[OF connected_once_eq(1), of mcp_env_ok, folded connected_once_def]
    connected_once_eq
  by simp

subsection \<open>Output-path expansion\<close>

lemma split_at_first_Some:
  "split_at_first pat s = Some (a, b) \<Longrightarrow> s = a @ pat @ b"
proof (induction s arbitrary: a)
  case Nil
  then show ?case by (simp split: if_splits)
next
  case (Cons c cs)
  show ?case
  proof (cases "take (length pat) (c # cs) = pat")
    case True
    with Cons.prems have "a = []" "b = drop (length pat) (c # cs)" by simp_all
    with True show ?thesis by (metis append_Nil append_take_drop_id)
  next
    case False
    with Cons.prems obtain a' where "split_at_first pat cs = Some (a', b)" "a = c # a'"
      by (auto split: option.splits)
    with Cons.IH show ?thesis by simp
  qed
qed


lemma split_at_first_None:
  "split_at_first pat s = None \<Longrightarrow> s \<noteq> a @ pat @ b"
proof (induction s arbitrary: a)
  case Nil
  then show ?case by (simp split: if_splits)
next
  case (Cons c cs)
  then have np: "take (length pat) (c # cs) \<noteq> pat" and n: "split_at_first pat cs = None"
    by (auto split: if_splits option.splits)
  show ?case
  proof
    assume eq: "c # cs = a @ pat @ b"
    show False
    proof (cases a)
      case Nil
      with eq np show False by auto
    next
      case (Cons x a')
      with eq have "cs = a' @ pat @ b" by simp
      with Cons.IH[OF n] show False by blast
    qed
  qed
qed

lemma split_at_first_absent:
  "pat \<noteq> [] \<Longrightarrow> hd pat \<notin> set s \<Longrightarrow> split_at_first pat s = None"
proof (induction s)
  case Nil
  then show ?case by simp
next
  case (Cons c cs)
  then have "take (length pat) (c # cs) \<noteq> pat"
    by (cases pat) auto
  with Cons show ?case by simp
qed

lemma split_at_first_fresh:
  "pat \<noteq> [] \<Longrightarrow> hd pat \<notin> set a \<Longrightarrow> split_at_first pat (a @ pat @ b) = Some (a, b)"
proof (induction a)
  case Nil
  then show ?case by (cases pat) simp_all
next
  case (Cons c a)
  then have "take (length pat) ((c # a) @ pat @ b) \<noteq> pat"
    by (cases pat) auto
  with Cons show ?case by simp
qed

lemma GetSubstitution_plain:
  "CHR ''$'' \<notin> set r \<Longrightarrow> GetSubstitution m a b r = r"
  by (induction m a b r rule: GetSubstitution.induct) auto

lemma replace_absent:
  "pat \<noteq> [] \<Longrightarrow> hd pat \<notin> set s \<Longrightarrow> replace s pat r = s"
  by (simp add: replace_def split_at_first_absent)

lemma replace_fresh:
  "pat \<noteq> [] \<Longrightarrow> hd pat \<notin> set a \<Longrightarrow> CHR ''$'' \<notin> set r \<Longrightarrow>
     replace (a @ pat @ b) pat r = a @ r @ b"
  by (simp add: replace_def split_at_first_fresh GetSubstitution_plain)

lemma replace_none:
  "(\<And>a b. s \<noteq> a @ pat @ b) \<Longrightarrow> replace s pat r = s"
proof (cases "split_at_first pat s")
  case None
  then show ?thesis by (simp add: replace_def)
next
  case (Some ab)
  assume n: "\<And>a b. s \<noteq> a @ pat @ b"
  obtain a b where "ab = (a, b)" by (cases ab)
  with Some split_at_first_Some[of pat s a b] n show ?thesis by blast
qed

lemma replace_colon_dot_set:
  "CHR '':'' \<notin> set (replace_colon_dot s) \<and> CHR ''.'' \<notin> set (replace_colon_dot s) \<and>
   length (replace_colon_dot s) = length s"
  by (auto simp add: replace_colon_dot_def)

lemma replace_colon_dot_keeps:
  "c \<noteq> CHR ''-'' \<Longrightarrow> c \<in> set (replace_colon_dot s) \<Longrightarrow> c \<in> set s"
  by (auto simp add: replace_colon_dot_def split: if_splits)

lemma split_T_first_eq:
  "CHR ''T'' \<notin> set d \<Longrightarrow> split_T_first (d @ ''T'' @ r) = d"
  by (induction d) (auto simp add: split_T_first_def)

subsection \<open>Occurrences of a placeholder\<close>

lemma take_eq_iff_prefix: "take (length p) s = p \<longleftrightarrow> (\<exists>w. s = p @ w)"
proof
  assume "take (length p) s = p"
  then have "s = p @ drop (length p) s" by (metis append_take_drop_id)
  then show "\<exists>w. s = p @ w" ..
next
  assume "\<exists>w. s = p @ w"
  then show "take (length p) s = p" by auto
qed

lemma occurrences_zero_iff:
  "pat \<noteq> [] \<Longrightarrow> occurrences pat s = 0 \<longleftrightarrow> split_at_first pat s = None"
  by (induction s) (auto split: option.splits)

lemma occurrences_skip:
  "pat \<noteq> [] \<Longrightarrow> hd pat \<notin> set w \<Longrightarrow> occurrences pat (w @ v) = occurrences pat v"
proof (induction w)
  case Nil
  then show ?case by simp
next
  case (Cons c w)
  then have "take (length pat) ((c # w) @ v) \<noteq> pat" by (cases pat) auto
  with Cons show ?case by simp
qed

lemma occurrences_append_ge:
  "occurrences pat x + occurrences pat y \<le> occurrences pat (x @ y)"
proof (induction x)
  case Nil
  then show ?case by simp
next
  case (Cons c x)
  have "take (length pat) (c # x) = pat \<Longrightarrow> take (length pat) ((c # x) @ y) = pat"
  proof -
    assume "take (length pat) (c # x) = pat"
    then obtain w where "c # x = pat @ w" unfolding take_eq_iff_prefix by blast
    then have "(c # x) @ y = pat @ (w @ y)" by simp
    then show ?thesis unfolding take_eq_iff_prefix by blast
  qed
  with Cons show ?case by auto
qed

lemma braced_shape:
  assumes "braced p"
  obtains m where "p = CHR ''{'' # m @ ''}''" "CHR ''{'' \<notin> set m" "CHR ''}'' \<notin> set m"
proof -
  from assms obtain r where r: "p = CHR ''{'' # r" "r \<noteq> []" "last r = CHR ''}''"
    "CHR ''{'' \<notin> set r" "CHR ''}'' \<notin> set (butlast r)"
    by (auto simp add: braced_def split: list.splits)
  from r(2,3) have "r = butlast r @ ''}''" by (metis append_butlast_last_id)
  moreover from r(4) have "CHR ''{'' \<notin> set (butlast r)" by (meson in_set_butlastD)
  ultimately show ?thesis using r(1,5) that[of "butlast r"] by simp
qed

lemma first_separator_unique:
  "x \<notin> set ys \<Longrightarrow> x \<notin> set xs \<Longrightarrow> xs @ x # a = ys @ x # b \<Longrightarrow> xs = ys"
proof (induction xs arbitrary: ys)
  case Nil
  then show ?case by (cases ys) auto
next
  case (Cons c xs)
  then show ?case by (cases ys) auto
qed

lemma braced_same_start:
  assumes "braced p" "braced q"
  shows "take (length p) (q @ v) = p \<longleftrightarrow> p = q"
proof
  assume "p = q" then show "take (length p) (q @ v) = p" by simp
next
  assume "take (length p) (q @ v) = p"
  then obtain w where w: "q @ v = p @ w" unfolding take_eq_iff_prefix by blast
  from assms(1) obtain m where m: "p = CHR ''{'' # m @ ''}''" "CHR ''}'' \<notin> set m"
    by (rule braced_shape)
  from assms(2) obtain n where n: "q = CHR ''{'' # n @ ''}''" "CHR ''}'' \<notin> set n"
    by (rule braced_shape)
  from w m(1) n(1) have "n @ CHR ''}'' # v = m @ CHR ''}'' # w" by simp
  with m(2) n(2) have "n = m" by (rule first_separator_unique)
  with m(1) n(1) show "p = q" by simp
qed

lemma braced_no_straddle:
  assumes "braced p" "braced q" "u \<noteq> []"
  shows "take (length p) (u @ q @ v) = p \<longleftrightarrow> take (length p) u = p"
proof
  assume "take (length p) u = p"
  then show "take (length p) (u @ q @ v) = p" unfolding take_eq_iff_prefix by auto
next
  assume "take (length p) (u @ q @ v) = p"
  then obtain w where w: "u @ q @ v = p @ w" unfolding take_eq_iff_prefix by blast
  from assms(1) obtain m where m: "p = CHR ''{'' # m @ ''}''" "CHR ''{'' \<notin> set m"
    by (rule braced_shape)
  from assms(2) obtain n where n: "q = CHR ''{'' # n @ ''}''" by (rule braced_shape)
  from w have "u @ (q @ v) = p @ w" by simp
  then obtain us where "u = p @ us \<and> us @ (q @ v) = w \<or> u @ us = p \<and> q @ v = us @ w"
    unfolding append_eq_append_conv2 by blast
  then consider "\<exists>z. u = p @ z" | z where "z \<noteq> []" "u @ z = p" "z @ w = q @ v"
    by (cases "us = []") auto
  then show "take (length p) u = p"
  proof cases
    case 1
    then show ?thesis by auto
  next
    case 2
    from 2(1,3) n have "hd z = CHR ''{''" by (cases z) auto
    with 2(1) have "CHR ''{'' \<in> set z" by (metis hd_in_set)
    moreover from assms(3) 2(2) m(1) obtain u' where "u = CHR ''{'' # u'" "u' @ z = m @ ''}''"
      by (cases u) auto
    ultimately have "CHR ''{'' \<in> set (m @ ''}'')" by (metis Un_iff set_append)
    with m(2) show ?thesis by simp
  qed
qed

lemma occurrences_braced:
  assumes "braced p" "braced q"
  shows "occurrences p (u @ q @ v) = occurrences p u + (if p = q then 1 else 0) + occurrences p v"
proof (induction u)
  case Nil
  from assms(2) obtain n where n: "q = CHR ''{'' # n @ ''}''" "CHR ''{'' \<notin> set n"
    by (rule braced_shape)
  from assms(1) obtain m where m: "p = CHR ''{'' # m @ ''}''" by (rule braced_shape)
  have "occurrences p ((n @ ''}'') @ v) = occurrences p v"
    using n(2) m by (intro occurrences_skip) auto
  moreover have "take (length p) (q @ v) = p \<longleftrightarrow> p = q" by (rule braced_same_start[OF assms])
  ultimately show ?case using n(1) by auto
next
  case (Cons c u)
  have "take (length p) ((c # u) @ q @ v) = p \<longleftrightarrow> take (length p) (c # u) = p"
    by (rule braced_no_straddle[OF assms]) simp
  with Cons show ?case by simp
qed



lemma braced_placeholders: "braced ''{name}''" "braced ''{timestamp}''" "braced ''{date}''"
  by (simp_all add: braced_def)


lemma occurrences_twice:
  assumes "pat \<noteq> []"
  shows "2 \<le> occurrences pat (a @ pat @ b @ pat @ c)"
proof -
  have one: "1 \<le> occurrences pat (pat @ w)" for w using assms by (cases pat) auto
  have "occurrences pat (pat @ b) + occurrences pat (pat @ c)
      \<le> occurrences pat ((pat @ b) @ pat @ c)" by (rule occurrences_append_ge)
  with one[of b] one[of c] have "2 \<le> occurrences pat ((pat @ b) @ pat @ c)" by linarith
  moreover have "occurrences pat a + occurrences pat ((pat @ b) @ pat @ c)
      \<le> occurrences pat (a @ (pat @ b) @ pat @ c)" by (rule occurrences_append_ge)
  ultimately show ?thesis by simp
qed

lemma occurrences_absent:
  "pat \<noteq> [] \<Longrightarrow> hd pat \<notin> set w \<Longrightarrow> occurrences pat w = 0"
  using occurrences_skip[of pat w "[]"] by simp

lemma replace_no_occurrence:
  "pat \<noteq> [] \<Longrightarrow> occurrences pat s = 0 \<Longrightarrow> replace s pat r = s"
  by (simp add: replace_def occurrences_zero_iff)

lemma replace_plain:
  "CHR ''$'' \<notin> set r \<Longrightarrow> replace s pat r = substitute_first s pat r"
  by (simp add: replace_def substitute_first_def GetSubstitution_plain split: option.splits)

lemma iso_plain:
  assumes "CHR ''$'' \<notin> set z"
  shows "CHR ''$'' \<notin> set (replace_colon_dot z)" "CHR ''$'' \<notin> set (split_T_first z)"
  using assms replace_colon_dot_keeps[of "CHR ''$''" z]
    set_takeWhileD[of "CHR ''$''" "\<lambda>c. c \<noteq> CHR ''T''" z]
  by (auto simp add: split_T_first_def)

lemma iso_no_brace:
  assumes "CHR ''{'' \<notin> set z"
  shows "CHR ''{'' \<notin> set (replace_colon_dot z)"
  using assms replace_colon_dot_keeps[of "CHR ''{''" z] by auto

lemma saveOutput_filename_chain:
  assumes "CHR ''$'' \<notin> set nm" "CHR ''$'' \<notin> set iso1" "CHR ''$'' \<notin> set iso2"
  shows "saveOutput_filename t nm iso1 iso2 =
     substitute_first
       (substitute_first (substitute_first t ''{name}'' nm) ''{timestamp}'' (replace_colon_dot iso1))
       ''{date}'' (split_T_first iso2)"
  using assms iso_plain[of iso1] iso_plain[of iso2]
  by (simp add: saveOutput_filename_def Let_def replace_plain)

lemma saveOutput_filename_plain:
  assumes "occurrences ''{name}'' t = 0" "occurrences ''{timestamp}'' t = 0"
    "occurrences ''{date}'' t = 0"
  shows "saveOutput_filename t nm iso1 iso2 = t"
  using assms by (simp add: saveOutput_filename_def Let_def replace_no_occurrence)

lemma saveOutput_filename_name_only:
  assumes "CHR ''$'' \<notin> set nm" and "CHR ''{'' \<notin> set (a @ nm @ b)"
  shows "saveOutput_filename (a @ ''{name}'' @ b) nm iso1 iso2 = a @ nm @ b"
proof -
  have "replace (a @ ''{name}'' @ b) ''{name}'' nm = a @ nm @ b"
    using assms by (intro replace_fresh) simp_all
  moreover have "replace (a @ nm @ b) ''{timestamp}'' (replace_colon_dot iso1) = a @ nm @ b"
    using assms by (intro replace_absent) simp_all
  moreover have "replace (a @ nm @ b) ''{date}'' (split_T_first iso2) = a @ nm @ b"
    using assms by (intro replace_absent) simp_all
  ultimately show ?thesis by (simp add: saveOutput_filename_def Let_def)
qed

lemma no_other_placeholder:
  assumes "braced p" "braced q" "p \<noteq> q" "CHR ''{'' \<notin> set (a @ b)"
  shows "occurrences p (a @ q @ b) = 0"
proof -
  from assms(1) have p: "p \<noteq> []" "hd p = CHR ''{''" by (auto elim: braced_shape)
  with assms(4) have "occurrences p a = 0" "occurrences p b = 0"
    by (simp_all add: occurrences_absent)
  with occurrences_braced[OF assms(1,2), of a b] assms(3) show ?thesis by simp
qed

lemma saveOutput_filename_timestamp_only:
  assumes "CHR ''$'' \<notin> set iso1" "CHR ''{'' \<notin> set iso1" and "CHR ''{'' \<notin> set (a @ b)"
  shows "saveOutput_filename (a @ ''{timestamp}'' @ b) nm iso1 iso2 = a @ replace_colon_dot iso1 @ b"
proof -
  have "occurrences ''{name}'' (a @ ''{timestamp}'' @ b) = 0"
    using assms(3) by (intro no_other_placeholder braced_placeholders) simp_all
  then have "replace (a @ ''{timestamp}'' @ b) ''{name}'' nm = a @ ''{timestamp}'' @ b"
    by (intro replace_no_occurrence) simp_all
  moreover have "replace (a @ ''{timestamp}'' @ b) ''{timestamp}'' (replace_colon_dot iso1)
      = a @ replace_colon_dot iso1 @ b"
    using assms iso_plain(1)[of iso1] by (intro replace_fresh) simp_all
  moreover have "replace (a @ replace_colon_dot iso1 @ b) ''{date}'' (split_T_first iso2)
      = a @ replace_colon_dot iso1 @ b"
    using assms iso_no_brace[of iso1] by (intro replace_absent) simp_all
  ultimately show ?thesis by (simp add: saveOutput_filename_def Let_def)
qed

lemma saveOutput_filename_date_only:
  assumes "CHR ''$'' \<notin> set iso2" and "CHR ''{'' \<notin> set (a @ b)"
  shows "saveOutput_filename (a @ ''{date}'' @ b) nm iso1 iso2 = a @ split_T_first iso2 @ b"
proof -
  have "occurrences ''{name}'' (a @ ''{date}'' @ b) = 0"
    using assms(2) by (intro no_other_placeholder braced_placeholders) simp_all
  then have "replace (a @ ''{date}'' @ b) ''{name}'' nm = a @ ''{date}'' @ b"
    by (intro replace_no_occurrence) simp_all
  moreover have "occurrences ''{timestamp}'' (a @ ''{date}'' @ b) = 0"
    using assms(2) by (intro no_other_placeholder braced_placeholders) simp_all
  then have "replace (a @ ''{date}'' @ b) ''{timestamp}'' (replace_colon_dot iso1)
      = a @ ''{date}'' @ b"
    by (intro replace_no_occurrence) simp_all
  moreover have "replace (a @ ''{date}'' @ b) ''{date}'' (split_T_first iso2)
      = a @ split_T_first iso2 @ b"
    using assms iso_plain(2)[of iso2] by (intro replace_fresh) simp_all
  ultimately show ?thesis by (simp add: saveOutput_filename_def Let_def)
qed

lemma saveOutput_filename_name_timestamp:
  assumes "CHR ''$'' \<notin> set nm" "CHR ''{'' \<notin> set nm" "CHR ''$'' \<notin> set iso1" "CHR ''{'' \<notin> set iso1"
  shows "saveOutput_filename ''outputs/{name}-{timestamp}.txt'' nm iso1 iso2 =
           ''outputs/'' @ nm @ ''-'' @ replace_colon_dot iso1 @ ''.txt''"
proof -
  have "replace (''outputs/'' @ ''{name}'' @ ''-{timestamp}.txt'') ''{name}'' nm
      = ''outputs/'' @ nm @ ''-{timestamp}.txt''"
    using assms by (intro replace_fresh) simp_all
  moreover have "replace ((''outputs/'' @ nm @ ''-'') @ ''{timestamp}'' @ ''.txt'') ''{timestamp}''
      (replace_colon_dot iso1) = (''outputs/'' @ nm @ ''-'') @ replace_colon_dot iso1 @ ''.txt''"
    using assms iso_plain(1)[of iso1] by (intro replace_fresh) simp_all
  moreover have "replace (''outputs/'' @ nm @ ''-'' @ replace_colon_dot iso1 @ ''.txt'') ''{date}''
      (split_T_first iso2) = ''outputs/'' @ nm @ ''-'' @ replace_colon_dot iso1 @ ''.txt''"
    using assms iso_no_brace[of iso1] by (intro replace_absent) simp_all
  ultimately show ?thesis by (simp add: saveOutput_filename_def Let_def)
qed



text \<open>
  Claim C7, amended. For a job name without a dollar sign (and ISO strings without dollar
  sign and brace, as every ISO string is), the expansion substitutes the first occurrence of
  \<^verbatim>\<open>{name}\<close> with the job name as it is, then the first occurrence of \<^verbatim>\<open>{timestamp}\<close> with
  the ISO string in which every colon and full stop is replaced by a hyphen, then the first
  occurrence of \<^verbatim>\<open>{date}\<close> with the part of the ISO string before its \<^verbatim>\<open>T\<close>. A template
  that holds one placeholder and no other brace expands to the template with the value in
  the placeholder's place; a template in which none of the three placeholders occurs is
  returned as it is. The template \<^verbatim>\<open>outputs/{name}-{timestamp}.txt\<close> expands, for a name
  without brace, to outputs/, the name, a hyphen, the timestamp and .txt, which holds a
  colon exactly when the name does. \<^verbatim>\<open>saveOutput\<close> hands the expanded string to
  \<^verbatim>\<open>path.resolve\<close> and creates the directory of, and writes to, what that returns.
\<close>
theorem output_path_expansion:
  assumes "CHR ''$'' \<notin> set nm" and "CHR ''$'' \<notin> set iso1" and "CHR ''{'' \<notin> set iso1"
    and "CHR ''$'' \<notin> set iso2"
  shows "saveOutput_filename t nm iso1 iso2 =
           substitute_first
             (substitute_first (substitute_first t ''{name}'' nm) ''{timestamp}''
                (replace_colon_dot iso1))
             ''{date}'' (split_T_first iso2) \<and>
         (CHR ''{'' \<notin> set (a @ nm @ b) \<longrightarrow>
            saveOutput_filename (a @ ''{name}'' @ b) nm iso1 iso2 = a @ nm @ b) \<and>
         (CHR ''{'' \<notin> set (a @ b) \<longrightarrow>
            saveOutput_filename (a @ ''{timestamp}'' @ b) nm iso1 iso2
              = a @ replace_colon_dot iso1 @ b) \<and>
         (CHR ''{'' \<notin> set (a @ b) \<longrightarrow>
            saveOutput_filename (a @ ''{date}'' @ b) nm iso1 iso2 = a @ split_T_first iso2 @ b) \<and>
         CHR '':'' \<notin> set (replace_colon_dot iso1) \<and> CHR ''.'' \<notin> set (replace_colon_dot iso1) \<and>
         length (replace_colon_dot iso1) = length iso1 \<and>
         (CHR ''T'' \<notin> set d \<longrightarrow> split_T_first (d @ ''T'' @ r) = d) \<and>
         (occurrences ''{name}'' t = 0 \<and> occurrences ''{timestamp}'' t = 0 \<and>
          occurrences ''{date}'' t = 0 \<longrightarrow> saveOutput_filename t nm iso1 iso2 = t) \<and>
         (CHR ''{'' \<notin> set nm \<longrightarrow>
            saveOutput_filename ''outputs/{name}-{timestamp}.txt'' nm iso1 iso2
              = ''outputs/'' @ nm @ ''-'' @ replace_colon_dot iso1 @ ''.txt'' \<and>
            (CHR '':'' \<in> set (saveOutput_filename ''outputs/{name}-{timestamp}.txt'' nm iso1 iso2)
               \<longleftrightarrow> CHR '':'' \<in> set nm)) \<and>
         calls (snd (saveOutput env nm p content s)) = calls s @
           (let fullPath = path_resolve env
                  (saveOutput_filename p nm (iso_timestamp env) (iso_date env))
            in Mkdir (path_dirname env fullPath) #
               (case mkdir_outcome env of Inl e \<Rightarrow> [] | Inr u \<Rightarrow> [WriteFile fullPath content]))"
proof (intro conjI impI)
  show "saveOutput_filename t nm iso1 iso2 =
           substitute_first
             (substitute_first (substitute_first t ''{name}'' nm) ''{timestamp}''
                (replace_colon_dot iso1))
             ''{date}'' (split_T_first iso2)"
    using assms by (intro saveOutput_filename_chain)
  show "CHR '':'' \<notin> set (replace_colon_dot iso1)" "CHR ''.'' \<notin> set (replace_colon_dot iso1)"
    "length (replace_colon_dot iso1) = length iso1"
    using replace_colon_dot_set[of iso1] by simp_all
  show "calls (snd (saveOutput env nm p content s)) = calls s @
           (let fullPath = path_resolve env
                  (saveOutput_filename p nm (iso_timestamp env) (iso_date env))
            in Mkdir (path_dirname env fullPath) #
               (case mkdir_outcome env of Inl e \<Rightarrow> [] | Inr u \<Rightarrow> [WriteFile fullPath content]))"
    by (rule saveOutput_calls)
next
  assume "CHR ''{'' \<notin> set (a @ nm @ b)"
  with assms(1) show "saveOutput_filename (a @ ''{name}'' @ b) nm iso1 iso2 = a @ nm @ b"
    by (rule saveOutput_filename_name_only)
next
  assume "CHR ''{'' \<notin> set (a @ b)"
  with assms(2,3) show "saveOutput_filename (a @ ''{timestamp}'' @ b) nm iso1 iso2
              = a @ replace_colon_dot iso1 @ b"
    by (rule saveOutput_filename_timestamp_only)
next
  assume "CHR ''{'' \<notin> set (a @ b)"
  with assms(4) show "saveOutput_filename (a @ ''{date}'' @ b) nm iso1 iso2
      = a @ split_T_first iso2 @ b"
    by (rule saveOutput_filename_date_only)
next
  assume "CHR ''T'' \<notin> set d"
  then show "split_T_first (d @ ''T'' @ r) = d" by (rule split_T_first_eq)
next
  assume "occurrences ''{name}'' t = 0 \<and> occurrences ''{timestamp}'' t = 0 \<and>
          occurrences ''{date}'' t = 0"
  then show "saveOutput_filename t nm iso1 iso2 = t" by (intro saveOutput_filename_plain) simp_all
next
  assume n: "CHR ''{'' \<notin> set nm"
  from saveOutput_filename_name_timestamp[OF assms(1) n assms(2,3)]
  show e: "saveOutput_filename ''outputs/{name}-{timestamp}.txt'' nm iso1 iso2
              = ''outputs/'' @ nm @ ''-'' @ replace_colon_dot iso1 @ ''.txt''" .
  show "CHR '':'' \<in> set (saveOutput_filename ''outputs/{name}-{timestamp}.txt'' nm iso1 iso2)
               \<longleftrightarrow> CHR '':'' \<in> set nm"
    unfolding e using replace_colon_dot_set[of iso1] by simp
qed

text \<open>
  C7, amended, at the job name nightly and the time 2024-01-15T03:00:00.000Z.
\<close>
theorem output_path_expansion_witness:
  "CHR ''$'' \<notin> set ''nightly'' \<and> CHR ''$'' \<notin> set iso_example \<and> CHR ''{'' \<notin> set iso_example \<and>
   CHR ''{'' \<notin> set ''nightly'' \<and>
   saveOutput_filename ''outputs/{name}-{timestamp}.txt'' ''nightly'' iso_example iso_example
     = ''outputs/nightly-2024-01-15T03-00-00-000Z.txt'' \<and>
   saveOutput_filename (''daily/'' @ ''{date}'' @ ''.md'') ''nightly'' iso_example iso_example
     = ''daily/2024-01-15.md'' \<and>
   CHR '':'' \<notin> set (saveOutput_filename ''outputs/{name}-{timestamp}.txt'' ''nightly''
                     iso_example iso_example)"
proof -
  have h: "CHR ''$'' \<notin> set ''nightly''" "CHR ''$'' \<notin> set iso_example"
    "CHR ''{'' \<notin> set iso_example" "CHR ''{'' \<notin> set ''nightly''"
    by (simp_all add: iso_example_def)
  have v: "replace_colon_dot iso_example = ''2024-01-15T03-00-00-000Z''"
    "split_T_first iso_example = ''2024-01-15''"
    by (simp_all add: iso_example_def replace_colon_dot_def split_T_first_def)
  note T = output_path_expansion[OF h(1,2,3,2), where a = "''daily/''" and b = "''.md''"
      and t = "[]" and d = "[]" and r = "[]"]
  from T h(4) have
    "saveOutput_filename ''outputs/{name}-{timestamp}.txt'' ''nightly'' iso_example iso_example
       = ''outputs/'' @ ''nightly'' @ ''-'' @ replace_colon_dot iso_example @ ''.txt''"
    by blast
  then have one: "saveOutput_filename ''outputs/{name}-{timestamp}.txt'' ''nightly'' iso_example
       iso_example = ''outputs/nightly-2024-01-15T03-00-00-000Z.txt''"
    by (simp add: v)
  have "CHR ''{'' \<notin> set (''daily/'' @ ''.md'')" by simp
  with T have
    "saveOutput_filename (''daily/'' @ ''{date}'' @ ''.md'') ''nightly'' iso_example iso_example
       = ''daily/'' @ split_T_first iso_example @ ''.md''"
    by blast
  then have two: "saveOutput_filename (''daily/'' @ ''{date}'' @ ''.md'') ''nightly'' iso_example
       iso_example = ''daily/2024-01-15.md''"
    by (simp add: v)
  from one two h show ?thesis by simp
qed

text \<open>
  Claim C7 as stated fails: a colon of the job name is a colon of the path, and a job name
  with \<^verbatim>\<open>$$\<close> is not substituted as it is.
\<close>
theorem output_path_expansion_counterexample:
  "saveOutput_filename ''outputs/{name}-{timestamp}.txt'' ''db:nightly'' iso_example iso_example
     = ''outputs/db:nightly-2024-01-15T03-00-00-000Z.txt'' \<and>
   saveOutput_filename ''outputs/{name}.txt'' ''a$$b'' iso_example iso_example
     = ''outputs/a$b.txt''"
  by (simp add: saveOutput_filename_def replace_def replace_colon_dot_def split_T_first_def
      iso_example_def Let_def)






lemma placeholders_differ:
  "''{name}'' \<noteq> ''{timestamp}''" "''{name}'' \<noteq> ''{date}''" "''{timestamp}'' \<noteq> ''{date}''"
  by simp_all










end
